theory Spec2Isabelle
  imports Main
begin

section \<open>Strings as the scraper uses them\<close>

text \<open>
  Python strings are modelled as \<open>string\<close> (lists of 8-bit characters); the URLs and class
  attributes the scraper inspects are ASCII.  Integers are Python's unbounded \<open>int\<close>.
\<close>

definition startswith :: "string \<Rightarrow> string \<Rightarrow> bool" where
  \<comment> \<open>\<^verbatim>\<open>s.startswith(p)\<close>\<close>
  "startswith s p = (take (length p) s = p)"

fun contains :: "string \<Rightarrow> string \<Rightarrow> bool" where
  \<comment> \<open>\<^verbatim>\<open>p in s\<close>: \<open>p\<close> occurs in \<open>s\<close> as a contiguous substring\<close>
  "contains p [] = (p = [])"
| "contains p (c # cs) = (startswith (c # cs) p \<or> contains p cs)"

fun split_on :: "char \<Rightarrow> string \<Rightarrow> string list" where
  \<comment> \<open>\<^verbatim>\<open>s.split(c)\<close>: empty fields are kept\<close>
  "split_on d [] = [[]]"
| "split_on d (c # cs) =
     (if c = d then [] # split_on d cs
      else (case split_on d cs of
              [] \<Rightarrow> [[c]]
            | f # fs \<Rightarrow> (c # f) # fs))"

definition digit_char :: "nat \<Rightarrow> char" where
  "digit_char d = char_of (48 + d)"

fun show_nat :: "nat \<Rightarrow> string" where
  "show_nat n = (if n < 10 then [digit_char n] else show_nat (n div 10) @ [digit_char (n mod 10)])"

declare show_nat.simps [simp del]

definition show_int :: "int \<Rightarrow> string" where
  \<comment> \<open>the decimal rendering of an f-string field\<close>
  "show_int i = (if i < 0 then CHR ''-'' # show_nat (nat (- i)) else show_nat (nat i))"

definition is_space :: "char \<Rightarrow> bool" where
  \<comment> \<open>the characters below 128 that \<^verbatim>\<open>\s\<close> and \<^verbatim>\<open>str.strip\<close> treat as white space\<close>
  "is_space c = (of_char c \<in> {9, 10, 11, 12, 13, 28, 29, 30, 31, 32 :: nat})"

definition strip :: "string \<Rightarrow> string" where
  "strip s = rev (dropWhile is_space (rev (dropWhile is_space s)))"

section \<open>File names derived from a URL\<close>

text \<open>
  \<^verbatim>\<open>urlparse(url).path\<close> is library code.  The model covers URLs of the shape
  \<^verbatim>\<open>scheme://netloc/path?query#fragment\<close> (each part optional): a leading scheme is removed
  up to its colon, then a \<^verbatim>\<open>//netloc\<close>, then everything from the first \<^verbatim>\<open>#\<close> and from
  the first \<^verbatim>\<open>?\<close>.  The stripping of control characters and the \<^verbatim>\<open>;params\<close> suffix
  of the last segment are not modelled.
\<close>

definition scheme_char :: "char \<Rightarrow> bool" where
  "scheme_char c =
     (let n = (of_char c :: nat) in
        (97 \<le> n \<and> n \<le> 122) \<or> (65 \<le> n \<and> n \<le> 90) \<or> (48 \<le> n \<and> n \<le> 57)
        \<or> c = CHR ''+'' \<or> c = CHR ''-'' \<or> c = CHR ''.'')"

definition is_alpha :: "char \<Rightarrow> bool" where
  "is_alpha c = (let n = (of_char c :: nat) in (97 \<le> n \<and> n \<le> 122) \<or> (65 \<le> n \<and> n \<le> 90))"

definition strip_scheme :: "string \<Rightarrow> string" where
  "strip_scheme u =
     (let s = takeWhile (\<lambda>c. c \<noteq> CHR '':'') u in
        if length s < length u \<and> s \<noteq> [] \<and> is_alpha (hd s) \<and> list_all scheme_char s
        then drop (length s + 1) u else u)"

definition strip_netloc :: "string \<Rightarrow> string" where
  "strip_netloc u =
     (if take 2 u = ''//''
      then dropWhile (\<lambda>c. c \<noteq> CHR ''/'' \<and> c \<noteq> CHR ''?'' \<and> c \<noteq> CHR ''#'') (drop 2 u)
      else u)"

definition urlparse_path :: "string \<Rightarrow> string" where
  "urlparse_path u =
     takeWhile (\<lambda>c. c \<noteq> CHR ''?'')
       (takeWhile (\<lambda>c. c \<noteq> CHR ''#'') (strip_netloc (strip_scheme u)))"

definition unsafe_char :: "char \<Rightarrow> bool" where
  \<comment> \<open>the character class \<^verbatim>\<open>[<>:"/\\|?*]\<close>\<close>
  "unsafe_char c =
     (c \<in> set [CHR ''<'', CHR ''>'', CHR '':'', CHR 0x22, CHR ''/'', CHR 0x5C, CHR ''|'',
               CHR ''?'', CHR ''*''])"

definition sub_unsafe :: "string \<Rightarrow> string" where
  \<comment> \<open>\<^verbatim>\<open>re.sub(r'[<>:"/\\|?*]', '_', s)\<close>\<close>
  "sub_unsafe s = map (\<lambda>c. if unsafe_char c then CHR ''_'' else c) s"

definition dash_or_space :: "char \<Rightarrow> bool" where
  "dash_or_space c = (c = CHR ''-'' \<or> is_space c)"

function sub_dash_space :: "string \<Rightarrow> string" where
  \<comment> \<open>\<^verbatim>\<open>re.sub(r'[-\s]+', '_', s)\<close>: every maximal run becomes one underscore\<close>
  "sub_dash_space [] = []"
| "sub_dash_space (c # cs) =
     (if dash_or_space c then CHR ''_'' # sub_dash_space (dropWhile dash_or_space cs)
      else c # sub_dash_space cs)"
  by pat_completeness auto
termination
  by (relation "measure length") (auto simp: le_imp_less_Suc length_dropWhile_le)

definition generate_filename_from_url :: "string \<Rightarrow> string" where
  "generate_filename_from_url u =
     (let path = urlparse_path u;
          parts = filter (\<lambda>part. part \<noteq> [] \<and> part \<notin> set [''t5'', ''qa-p'', ''ct-p''])
                    (split_on CHR ''/'' path)
      in case parts of
           section_name # _ \<Rightarrow> ''sap_community_'' @ sub_dash_space (sub_unsafe section_name)
         | [] \<Rightarrow> ''sap_community_data'')"

section \<open>Link filtering\<close>

definition normalize_href :: "string \<Rightarrow> string" where
  "normalize_href href =
     (if startswith href ''http'' then href else ''https://community.sap.com'' @ href)"

definition thread_marker :: "string \<Rightarrow> bool" where
  \<comment> \<open>\<^verbatim>\<open>/(?:qaq|qaa|qa)-p/\<close> at the start of the string\<close>
  "thread_marker s =
     (startswith s ''/qaq-p/'' \<or> startswith s ''/qaa-p/'' \<or> startswith s ''/qa-p/'')"

fun dot_plus_marker :: "string \<Rightarrow> bool" where
  \<comment> \<open>\<^verbatim>\<open>.+/(?:qaq|qaa|qa)-p/\<close> at the start of the string; \<^verbatim>\<open>.\<close> is any character but a newline\<close>
  "dot_plus_marker [] = False"
| "dot_plus_marker (c # cs) = (c \<noteq> CHR 0x0A \<and> (thread_marker cs \<or> dot_plus_marker cs))"

fun thread_pattern :: "string \<Rightarrow> bool" where
  \<comment> \<open>\<^verbatim>\<open>re.search(r'/t5/.+/(?:qaq|qaa|qa)-p/', s)\<close>\<close>
  "thread_pattern [] = False"
| "thread_pattern (c # cs) =
     ((startswith (c # cs) ''/t5/'' \<and> dot_plus_marker (drop 4 (c # cs))) \<or> thread_pattern cs)"

fun filter_loop :: "string list \<Rightarrow> string list \<Rightarrow> string list" where
  \<comment> \<open>the loop that fills \<^verbatim>\<open>filtered\<close>\<close>
  "filter_loop filtered [] = filtered"
| "filter_loop filtered (href # hrefs) =
     (let full = normalize_href href in
        if contains ''/user/viewprofilepage'' full then filter_loop filtered hrefs
        else if thread_pattern full then filter_loop (filtered @ [full]) hrefs
        else filter_loop filtered hrefs)"

fun dedup_loop :: "string set \<Rightarrow> string list \<Rightarrow> string list \<Rightarrow> string list" where
  \<comment> \<open>the loop over \<^verbatim>\<open>filtered\<close> with the set \<^verbatim>\<open>seen\<close>\<close>
  "dedup_loop seen q_urls [] = q_urls"
| "dedup_loop seen q_urls (u # us) =
     (if u \<notin> seen then dedup_loop (insert u seen) (q_urls @ [u]) us
      else dedup_loop seen q_urls us)"

definition filter_links :: "string list \<Rightarrow> string list" where
  "filter_links hrefs = dedup_loop {} [] (filter_loop [] hrefs)"

text \<open>The link filter in the words of the specification.\<close>

definition valid_thread_url :: "string \<Rightarrow> bool" where
  "valid_thread_url full = (\<not> contains ''/user/viewprofilepage'' full \<and> thread_pattern full)"

fun first_seen :: "string list \<Rightarrow> string list" where
  \<comment> \<open>each element kept at its first occurrence only\<close>
  "first_seen [] = []"
| "first_seen (u # us) = u # first_seen (filter (\<lambda>v. v \<noteq> u) us)"

definition spec_filter_links :: "string list \<Rightarrow> string list" where
  "spec_filter_links hrefs = first_seen (filter valid_thread_url (map normalize_href hrefs))"

section \<open>Image extraction\<close>

text \<open>
  An \<^verbatim>\<open>img\<close> element as \<^verbatim>\<open>extract_images_from_element\<close> sees it: its two attributes,
  what the download of its source does, and whether the local file can be written.
\<close>

datatype fetch_result = FetchRaises | FetchStatus nat

record img_elem =
  img_src :: "string option"
  img_alt :: "string option"
  img_fetch :: fetch_result
  img_write_ok :: bool

record image_ref =
  original_url :: string
  local_path :: string
  alt_text :: string
  filename :: string

definition splitext_ext :: "string \<Rightarrow> string" where
  \<comment> \<open>\<^verbatim>\<open>os.path.splitext(p)[1]\<close>: the last dot of the last component and what follows it,
      unless only dots precede it there\<close>
  "splitext_ext p =
     (let name = rev (takeWhile (\<lambda>c. c \<noteq> CHR ''/'') (rev p));
          ext = rev (takeWhile (\<lambda>c. c \<noteq> CHR ''.'') (rev name));
          stem = rev (drop 1 (dropWhile (\<lambda>c. c \<noteq> CHR ''.'') (rev name)))
      in if CHR ''.'' \<in> set name \<and> list_ex (\<lambda>c. c \<noteq> CHR ''.'') stem then CHR ''.'' # ext else [])"

definition resolve_src :: "(string \<Rightarrow> string \<Rightarrow> string) \<Rightarrow> string \<Rightarrow> string \<Rightarrow> string" where
  \<comment> \<open>the library function \<^verbatim>\<open>urljoin\<close> is the parameter \<open>uj\<close>\<close>
  "resolve_src uj base_url src =
     (if startswith src ''//'' then ''https:'' @ src
      else if startswith src ''/'' then uj base_url src
      else if \<not> startswith src ''http'' then uj base_url src
      else src)"

definition image_entry ::
  "(string \<Rightarrow> string \<Rightarrow> string) \<Rightarrow> string \<Rightarrow> string \<Rightarrow> nat \<Rightarrow> img_elem \<Rightarrow> image_ref option" where
  \<comment> \<open>the body of the per-image \<^verbatim>\<open>try\<close>: \<open>None\<close> when nothing is appended (no source, a
      status other than 200, or an exception, which the \<^verbatim>\<open>except\<close> only logs)\<close>
  "image_entry uj base_url images_dir i img =
     (case img_src img of
        None \<Rightarrow> None
      | Some src0 \<Rightarrow>
          if src0 = [] then None
          else
            let alt = (case img_alt img of
                         None \<Rightarrow> ''image_'' @ show_nat i
                       | Some a \<Rightarrow> if a = [] then ''image_'' @ show_nat i else a);
                src = resolve_src uj base_url src0;
                e = splitext_ext (urlparse_path src);
                file_ext = (if e = [] then ''.jpg'' else e);
                safe_filename = take 50 (sub_unsafe alt) @ ''_'' @ show_nat i @ file_ext;
                path = images_dir @ ''/'' @ safe_filename
            in (case img_fetch img of
                  FetchRaises \<Rightarrow> None
                | FetchStatus status \<Rightarrow>
                    if status = 200 then
                      (if img_write_ok img
                       then Some \<lparr>original_url = src, local_path = path, alt_text = alt,
                                  filename = safe_filename\<rparr>
                       else None)
                    else None))"

fun images_loop ::
  "(string \<Rightarrow> string \<Rightarrow> string) \<Rightarrow> string \<Rightarrow> string \<Rightarrow> nat \<Rightarrow> image_ref list \<Rightarrow> img_elem list
     \<Rightarrow> image_ref list" where
  \<comment> \<open>\<^verbatim>\<open>for i, img in enumerate(img_elements)\<close>, with the list \<^verbatim>\<open>images\<close> as accumulator\<close>
  "images_loop uj base_url images_dir i images [] = images"
| "images_loop uj base_url images_dir i images (img # rest) =
     (case image_entry uj base_url images_dir i img of
        None \<Rightarrow> images_loop uj base_url images_dir (Suc i) images rest
      | Some entry \<Rightarrow> images_loop uj base_url images_dir (Suc i) (images @ [entry]) rest)"

definition extract_images_from_element ::
  "(string \<Rightarrow> string \<Rightarrow> string) \<Rightarrow> img_elem list option \<Rightarrow> string \<Rightarrow> string \<Rightarrow> image_ref list" where
  \<comment> \<open>the element is given by its \<^verbatim>\<open>img\<close> descendants; \<open>None\<close> when \<^verbatim>\<open>os.makedirs\<close> or
      \<^verbatim>\<open>query_selector_all\<close> raises, which the outer \<^verbatim>\<open>except\<close> turns into the empty list\<close>
  "extract_images_from_element uj element base_url images_dir =
     (case element of
        None \<Rightarrow> []
      | Some img_elements \<Rightarrow> images_loop uj base_url images_dir 0 [] img_elements)"

section \<open>Answers\<close>

record response =
  response_number :: nat
  response_text :: string
  is_accepted :: bool
  author :: string
  date :: string
  images :: "image_ref list"

record answer_elem =
  ans_raises :: bool
  ans_text :: string
  ans_class :: "string option"
  ans_author :: string
  ans_date :: string
  ans_imgs :: "img_elem list option"

definition accepted_class :: "string \<Rightarrow> bool" where
  "accepted_class classes =
     (contains ''lia-accepted-solution'' classes \<or> contains ''lia-list-row-thread-solved'' classes)"

definition response_data ::
  "(string \<Rightarrow> string \<Rightarrow> string) \<Rightarrow> string \<Rightarrow> nat \<Rightarrow> answer_elem \<Rightarrow> response" where
  "response_data uj page_url i answer_elem =
     (let classes = (case ans_class answer_elem of None \<Rightarrow> [] | Some c \<Rightarrow> c)
      in \<lparr>response_number = i + 1,
          response_text = strip (ans_text answer_elem),
          is_accepted = accepted_class classes,
          author = strip (ans_author answer_elem),
          date = strip (ans_date answer_elem),
          images = extract_images_from_element uj (ans_imgs answer_elem) page_url ''images''\<rparr>)"

fun responses_loop ::
  "(string \<Rightarrow> string \<Rightarrow> string) \<Rightarrow> string \<Rightarrow> nat \<Rightarrow> response list \<Rightarrow> answer_elem list
     \<Rightarrow> response list" where
  \<comment> \<open>an answer whose extraction raises is logged and left out\<close>
  "responses_loop uj page_url i responses [] = responses"
| "responses_loop uj page_url i responses (a # rest) =
     (if ans_raises a then responses_loop uj page_url (Suc i) responses rest
      else responses_loop uj page_url (Suc i) (responses @ [response_data uj page_url i a]) rest)"

definition extract_all_responses ::
  "(string \<Rightarrow> string \<Rightarrow> string) \<Rightarrow> string \<Rightarrow> answer_elem list option \<Rightarrow> response list" where
  \<comment> \<open>\<open>None\<close>: the query for the answer elements raises, and the result is empty\<close>
  "extract_all_responses uj page_url answer_elements =
     (case answer_elements of
        None \<Rightarrow> []
      | Some elems \<Rightarrow> responses_loop uj page_url 0 [] elems)"

section \<open>Thread records and the pages of the forum\<close>

record thread_record =
  page_number :: int
  system :: string
  title :: string
  question :: string
  question_images :: "image_ref list"
  tags :: "string list"
  url :: string
  total_responses :: nat
  all_responses :: "response list"
  accepted_responses :: "response list option"
  non_accepted_responses :: "response list"
  primary_accepted_response :: "string option"
  primary_response :: "string option"

text \<open>
  What the browser shows is the input of a run.  A list page is given by the outcome of each
  navigation attempt, of the wait for the thread anchors and of the three link queries; a
  thread page by the outcome of its navigation attempts, of each extraction step, and of the
  two persistence steps that follow a classification.  The selector chains for title, tags
  and category yield strings that no property below inspects; the model takes their results
  from the page.  \<open>None\<close> stands for a step that raises.
\<close>

datatype goto_outcome = GotoRaises | GotoBlocked | GotoOk

datatype wait_outcome = WaitOk | WaitTimeout | WaitError

datatype href_read = HrefRaises | Href "string option"

record list_page =
  lp_goto :: "nat \<Rightarrow> goto_outcome"
  lp_wait :: wait_outcome
  lp_thread_links :: "href_read list option"
  lp_title_links :: "href_read list option"
  lp_t5_links :: "href_read list option"

datatype body_step = BodyRaises | BodyAbsent | BodyFound string "img_elem list option"

record thread_dom =
  td_title :: "string option"
  td_body :: body_step
  td_meta :: "(string list \<times> string) option"
  td_answers :: "answer_elem list option"

datatype save_outcome = SaveOk | SaveWriteFails | SaveDirFails

datatype flush_outcome =
  FlushOk | FlushDirFails | FlushAcceptedFails | FlushNoAcceptedFails | FlushExcelFails

record thread_page =
  tp_goto :: "nat \<Rightarrow> bool"
  tp_dom :: thread_dom
  tp_flush :: flush_outcome
  tp_save :: save_outcome

record world =
  w_urljoin :: "string \<Rightarrow> string \<Rightarrow> string"
  w_page_save :: "int \<Rightarrow> save_outcome"
  w_list_page :: "int \<Rightarrow> list_page"
  w_thread_page :: "int \<Rightarrow> string \<Rightarrow> thread_page"

section \<open>The trace of a run and the disk\<close>

record excel_row =
  row_page_number :: int
  row_title :: string
  row_url :: string
  has_accepted_answer :: bool

datatype site = AtList | AtThread

datatype event =
    EvCheckpoint site save_outcome string int string
  | EvListGoto int nat
  | EvListFailed int
  | EvNoLinks int
  | EvThreadGoto int string nat
  | EvNavFailed int string
  | EvParseError int string
  | EvAppend bool thread_record
  | EvFlush flush_outcome string "thread_record list" "thread_record list"

text \<open>
  The events are what a run does, in order: each checkpoint save (with the base file name
  it uses and how it ends), each navigation, each append to a collection, each flush (with
  the base file name and the two collections it is called with, and how far it gets).
  Writes of image files and of diagnostic snapshots are not traced.
\<close>

datatype file_content =
    CheckpointFile int string
  | RecordsFile "thread_record list"
  | ExcelFile "excel_row list"

type_synonym disk = "string \<rightharpoonup> file_content"

definition checkpoint_file :: "string \<Rightarrow> string" where
  "checkpoint_file base = ''scrapped_data/'' @ base @ ''_checkpoint.json''"

definition accepted_json_file :: "string \<Rightarrow> string" where
  "accepted_json_file base = ''scrapped_data/'' @ base @ ''_accepted.json''"

definition no_accepted_json_file :: "string \<Rightarrow> string" where
  "no_accepted_json_file base = ''scrapped_data/'' @ base @ ''_no_accepted.json''"

definition excel_filename :: "string \<Rightarrow> string" where
  "excel_filename base = ''scrapped_data/'' @ base @ ''.xlsx''"

definition excel_row_of :: "bool \<Rightarrow> thread_record \<Rightarrow> excel_row" where
  \<comment> \<open>the columns that identify a row; the other columns are renderings of the same record\<close>
  "excel_row_of acc r =
     \<lparr>row_page_number = page_number r, row_title = title r, row_url = url r,
      has_accepted_answer = acc\<rparr>"

fun no_accepted_rows :: "excel_row list \<Rightarrow> thread_record list \<Rightarrow> excel_row list" where
  \<comment> \<open>a record whose URL already has a row is skipped\<close>
  "no_accepted_rows excel_rows [] = excel_rows"
| "no_accepted_rows excel_rows (n # ns) =
     (if list_ex (\<lambda>row. row_url row = url n) excel_rows then no_accepted_rows excel_rows ns
      else no_accepted_rows (excel_rows @ [excel_row_of False n]) ns)"

definition excel_rows_of :: "thread_record list \<Rightarrow> thread_record list \<Rightarrow> excel_row list" where
  "excel_rows_of accepted_list no_accepted_list =
     no_accepted_rows (map (excel_row_of True) accepted_list) no_accepted_list"

definition write_json_files ::
  "disk \<Rightarrow> string \<Rightarrow> thread_record list \<Rightarrow> thread_record list \<Rightarrow> disk" where
  \<comment> \<open>both structured files, each opened with mode \<^verbatim>\<open>w\<close> and so overwritten\<close>
  "write_json_files fs base accepted_list no_accepted_list =
     (fs(accepted_json_file base \<mapsto> RecordsFile accepted_list))
       (no_accepted_json_file base \<mapsto> RecordsFile no_accepted_list)"

fun apply_flush ::
  "disk \<Rightarrow> flush_outcome \<Rightarrow> string \<Rightarrow> thread_record list \<Rightarrow> thread_record list \<Rightarrow> disk" where
  "apply_flush fs FlushDirFails base a n = fs"
| "apply_flush fs FlushAcceptedFails base a n = fs"
| "apply_flush fs FlushNoAcceptedFails base a n = fs(accepted_json_file base \<mapsto> RecordsFile a)"
| "apply_flush fs FlushExcelFails base a n = write_json_files fs base a n"
| "apply_flush fs FlushOk base a n =
     (if excel_rows_of a n \<noteq> []
      then (write_json_files fs base a n)(excel_filename base \<mapsto> ExcelFile (excel_rows_of a n))
      else write_json_files fs base a n)"

fun apply_event :: "disk \<Rightarrow> event \<Rightarrow> disk" where
  "apply_event fs (EvCheckpoint s SaveOk base p u) = fs(checkpoint_file base \<mapsto> CheckpointFile p u)"
| "apply_event fs (EvFlush outcome base a n) = apply_flush fs outcome base a n"
| "apply_event fs _ = fs"

definition disk_after :: "disk \<Rightarrow> event list \<Rightarrow> disk" where
  \<comment> \<open>the disk once the events have happened; a run that stops between two events leaves
      the disk of a prefix of its trace\<close>
  "disk_after fs evs = foldl apply_event fs evs"

definition load_progress_checkpoint :: "disk \<Rightarrow> string \<Rightarrow> int \<times> string" where
  \<comment> \<open>a missing or unreadable checkpoint is no progress\<close>
  "load_progress_checkpoint fs base_filename =
     (case fs (checkpoint_file base_filename) of
        Some (CheckpointFile last_page last_url) \<Rightarrow> (last_page, last_url)
      | _ \<Rightarrow> (0, []))"

definition save_progress_checkpoint ::
  "site \<Rightarrow> save_outcome \<Rightarrow> string \<Rightarrow> int \<Rightarrow> string \<Rightarrow> event list \<times> bool" where
  \<comment> \<open>the flag tells whether the call raises: \<^verbatim>\<open>os.makedirs\<close> is outside the function's
      \<^verbatim>\<open>try\<close>, the write of the file is inside it\<close>
  "save_progress_checkpoint s outcome base_filename current_page current_url =
     ([EvCheckpoint s outcome base_filename current_page current_url], outcome = SaveDirFails)"

section \<open>The incremental result sink\<close>

definition save_results_incrementally ::
  "flush_outcome \<Rightarrow> string \<Rightarrow> thread_record list \<Rightarrow> thread_record list \<Rightarrow> event list \<times> bool" where
  \<comment> \<open>the flush as an event, and whether it raises: the table is written only when there
      is a row\<close>
  "save_results_incrementally outcome base_filename accepted_list no_accepted_list =
     ([EvFlush outcome base_filename accepted_list no_accepted_list],
      outcome = FlushDirFails \<or> outcome = FlushAcceptedFails \<or> outcome = FlushNoAcceptedFails
      \<or> (outcome = FlushExcelFails \<and> excel_rows_of accepted_list no_accepted_list \<noteq> []))"

section \<open>The crawl\<close>

text \<open>
  The variables of \<^verbatim>\<open>scrape_sap_community\<close> that change during the run.  The closure
  \<^verbatim>\<open>_save_results_incrementally\<close> and the checkpoint calls read \<^verbatim>\<open>base_filename\<close> at the
  moment they run, so it is part of the state.  The run is modelled with \<^verbatim>\<open>debug\<close> off;
  waits are timers and do not raise.
\<close>

record run_state =
  accepted_results :: "thread_record list"
  no_accepted_results :: "thread_record list"
  visited_count :: nat
  base_filename :: string
  stop_all :: bool

datatype ctl = Next | StopAll

datatype page_ctl = PNext | PBreak | PRaise

definition quota_reached :: "int option \<Rightarrow> run_state \<Rightarrow> bool" where
  \<comment> \<open>\<^verbatim>\<open>max_questions is not None and visited_count >= max_questions\<close>\<close>
  "quota_reached max_questions st =
     (case max_questions of None \<Rightarrow> False | Some n \<Rightarrow> n \<le> int (visited_count st))"

definition save_and_check ::
  "int option \<Rightarrow> thread_page \<Rightarrow> int \<Rightarrow> string \<Rightarrow> run_state \<Rightarrow> event list \<times> run_state \<times> ctl" where
  \<comment> \<open>after an append: flush, checkpoint, quota check; an exception in the first two is
      caught by the \<^verbatim>\<open>except\<close> of the thread and the loop goes on\<close>
  "save_and_check max_questions tp page_num q_url st =
     (case save_results_incrementally (tp_flush tp) (base_filename st)
             (accepted_results st) (no_accepted_results st) of
        (fevs, True) \<Rightarrow> (fevs @ [EvParseError page_num q_url], st, Next)
      | (fevs, False) \<Rightarrow>
          (case save_progress_checkpoint AtThread (tp_save tp) (base_filename st) page_num q_url of
             (cevs, True) \<Rightarrow> (fevs @ cevs @ [EvParseError page_num q_url], st, Next)
           | (cevs, False) \<Rightarrow>
               if quota_reached max_questions st
               then (fevs @ cevs, st\<lparr>stop_all := True\<rparr>, StopAll)
               else (fevs @ cevs, st, Next)))"

definition base_result ::
  "int \<Rightarrow> string \<Rightarrow> string \<Rightarrow> string \<Rightarrow> image_ref list \<Rightarrow> string list \<Rightarrow> string \<Rightarrow> response list
     \<Rightarrow> thread_record" where
  "base_result page_num sys ttl question_body q_images tgs q_url responses =
     \<lparr>page_number = page_num, system = sys, title = ttl, question = question_body,
      question_images = q_images, tags = tgs, url = q_url,
      total_responses = length responses, all_responses = responses,
      accepted_responses = None, non_accepted_responses = [],
      primary_accepted_response = None, primary_response = None\<rparr>"

definition classify ::
  "int option \<Rightarrow> thread_page \<Rightarrow> int \<Rightarrow> string \<Rightarrow> thread_record \<Rightarrow> run_state
     \<Rightarrow> event list \<times> run_state \<times> ctl" where
  "classify max_questions tp page_num q_url base st =
     (let accepted = filter is_accepted (all_responses base);
          non_accepted = filter (\<lambda>r. \<not> is_accepted r) (all_responses base)
      in if accepted \<noteq> [] then
           (let result_entry = base\<lparr>accepted_responses := Some accepted,
                                     non_accepted_responses := non_accepted,
                                     primary_accepted_response := Some (response_text (hd accepted))\<rparr>;
                st' = st\<lparr>accepted_results := accepted_results st @ [result_entry],
                         visited_count := visited_count st + 1\<rparr>
            in case save_and_check max_questions tp page_num q_url st' of
                 (evs, st'', c) \<Rightarrow> (EvAppend True result_entry # evs, st'', c))
         else
           (let result_entry = base\<lparr>non_accepted_responses := non_accepted,
                                     primary_response :=
                                       Some (if non_accepted \<noteq> [] then response_text (hd non_accepted)
                                             else [])\<rparr>;
                st' = st\<lparr>no_accepted_results := no_accepted_results st @ [result_entry],
                         visited_count := visited_count st + 1\<rparr>
            in case save_and_check max_questions tp page_num q_url st' of
                 (evs, st'', c) \<Rightarrow> (EvAppend False result_entry # evs, st'', c)))"

definition parse_thread ::
  "world \<Rightarrow> int option \<Rightarrow> int \<Rightarrow> string \<Rightarrow> run_state \<Rightarrow> event list \<times> run_state \<times> ctl" where
  \<comment> \<open>the \<^verbatim>\<open>try\<close> block of a thread.  When a body container is found, \<^verbatim>\<open>base_filename\<close>
      is assigned from the thread's URL\<close>
  "parse_thread w max_questions page_num q_url st =
     (let tp = w_thread_page w page_num q_url; dom = tp_dom tp in
      case td_title dom of
        None \<Rightarrow> ([EvParseError page_num q_url], st, Next)
      | Some ttl \<Rightarrow>
          (case td_body dom of
             BodyRaises \<Rightarrow> ([EvParseError page_num q_url], st, Next)
           | body \<Rightarrow>
               (let st1 = (case body of
                             BodyFound _ _ \<Rightarrow> st\<lparr>base_filename := generate_filename_from_url q_url\<rparr>
                           | _ \<Rightarrow> st);
                    question_body = (case body of BodyFound txt _ \<Rightarrow> txt | _ \<Rightarrow> []);
                    q_images = (case body of
                                  BodyFound _ imgs \<Rightarrow>
                                    extract_images_from_element (w_urljoin w) imgs q_url
                                      (''scrapped_data/images/'' @ generate_filename_from_url q_url)
                                | _ \<Rightarrow> [])
                in case td_meta dom of
                     None \<Rightarrow> ([EvParseError page_num q_url], st1, Next)
                   | Some (tgs, sys) \<Rightarrow>
                       classify max_questions tp page_num q_url
                         (base_result page_num sys ttl question_body q_images tgs q_url
                            (extract_all_responses (w_urljoin w) q_url (td_answers dom)))
                         st1)))"

definition visit_thread ::
  "world \<Rightarrow> int option \<Rightarrow> int \<Rightarrow> string \<Rightarrow> run_state \<Rightarrow> event list \<times> run_state \<times> ctl" where
  \<comment> \<open>the body of the thread loop after the quota check: two navigation attempts, then the
      \<^verbatim>\<open>try\<close> block\<close>
  "visit_thread w max_questions page_num q_url0 st =
     (let q_url = (if \<not> startswith q_url0 ''http'' then ''https://community.sap.com'' @ q_url0
                   else q_url0);
          tp = w_thread_page w page_num q_url
      in if tp_goto tp 0 then
           (case parse_thread w max_questions page_num q_url st of
              (evs, st', c) \<Rightarrow> (EvThreadGoto page_num q_url 0 # evs, st', c))
         else if tp_goto tp 1 then
           (case parse_thread w max_questions page_num q_url st of
              (evs, st', c) \<Rightarrow>
                (EvThreadGoto page_num q_url 0 # EvThreadGoto page_num q_url 1 # evs, st', c))
         else
           ([EvThreadGoto page_num q_url 0, EvThreadGoto page_num q_url 1,
             EvNavFailed page_num q_url], st, Next))"

fun thread_loop ::
  "world \<Rightarrow> int option \<Rightarrow> int \<Rightarrow> string list \<Rightarrow> run_state \<Rightarrow> event list \<times> run_state \<times> ctl" where
  \<comment> \<open>\<^verbatim>\<open>for q_url in q_urls\<close>\<close>
  "thread_loop w max_questions page_num [] st = ([], st, Next)"
| "thread_loop w max_questions page_num (q_url # rest) st =
     (if quota_reached max_questions st then ([], st\<lparr>stop_all := True\<rparr>, StopAll)
      else
        (case visit_thread w max_questions page_num q_url st of
           (evs, st', StopAll) \<Rightarrow> (evs, st', StopAll)
         | (evs, st', Next) \<Rightarrow>
             (case thread_loop w max_questions page_num rest st' of
                (evs', st'', c) \<Rightarrow> (evs @ evs', st'', c))))"

fun goto_attempts :: "(nat \<Rightarrow> goto_outcome) \<Rightarrow> int \<Rightarrow> nat list \<Rightarrow> event list \<times> bool" where
  \<comment> \<open>\<^verbatim>\<open>for attempt in range(3)\<close>: a blocked title or an exception leads to the next attempt\<close>
  "goto_attempts g page_num [] = ([], False)"
| "goto_attempts g page_num (attempt # rest) =
     (case g attempt of
        GotoOk \<Rightarrow> ([EvListGoto page_num attempt], True)
      | _ \<Rightarrow> (case goto_attempts g page_num rest of
                (evs, success) \<Rightarrow> (EvListGoto page_num attempt # evs, success)))"

fun collect_hrefs :: "string list \<Rightarrow> href_read list \<Rightarrow> string list option" where
  \<comment> \<open>reading the \<^verbatim>\<open>href\<close> of each link; an absent or empty one is skipped\<close>
  "collect_hrefs q_urls [] = Some q_urls"
| "collect_hrefs q_urls (HrefRaises # rest) = None"
| "collect_hrefs q_urls (Href None # rest) = collect_hrefs q_urls rest"
| "collect_hrefs q_urls (Href (Some href) # rest) =
     (if href \<noteq> [] then collect_hrefs (q_urls @ [href]) rest else collect_hrefs q_urls rest)"

definition discover_links :: "list_page \<Rightarrow> string list option" where
  \<comment> \<open>the three selector strategies, the first that finds a link wins; none of these calls
      is inside a \<^verbatim>\<open>try\<close>\<close>
  "discover_links lp =
     (case lp_thread_links lp of
        None \<Rightarrow> None
      | Some l1 \<Rightarrow>
          if l1 \<noteq> [] then collect_hrefs [] l1
          else (case lp_title_links lp of
                  None \<Rightarrow> None
                | Some l2 \<Rightarrow>
                    if l2 \<noteq> [] then collect_hrefs [] l2
                    else (case lp_t5_links lp of
                            None \<Rightarrow> None
                          | Some l3 \<Rightarrow> collect_hrefs [] l3)))"

definition scrape_page ::
  "world \<Rightarrow> int option \<Rightarrow> string \<Rightarrow> int \<Rightarrow> run_state \<Rightarrow> event list \<times> run_state \<times> page_ctl" where
  \<comment> \<open>the body of the page loop; the snapshot branch that follows the zero-links
      \<^verbatim>\<open>break\<close> tests the same condition again and is never reached\<close>
  "scrape_page w max_questions topic_url page_num st =
     (let list_url = topic_url @ ''?page='' @ show_int page_num;
          lp = w_list_page w page_num
      in case save_progress_checkpoint AtList (w_page_save w page_num) (base_filename st)
                page_num list_url of
           (cevs, True) \<Rightarrow> (cevs, st, PRaise)
         | (cevs, False) \<Rightarrow>
             (case goto_attempts (lp_goto lp) page_num [0, 1, 2] of
                (gevs, False) \<Rightarrow> (cevs @ gevs @ [EvListFailed page_num], st, PNext)
              | (gevs, True) \<Rightarrow>
                  if lp_wait lp = WaitError then (cevs @ gevs, st, PRaise)
                  else
                    (case discover_links lp of
                       None \<Rightarrow> (cevs @ gevs, st, PRaise)
                     | Some hrefs \<Rightarrow>
                         (let q_urls = filter_links hrefs in
                          if length q_urls = 0 then (cevs @ gevs @ [EvNoLinks page_num], st, PBreak)
                          else
                            (case thread_loop w max_questions page_num q_urls st of
                               (tevs, st', c) \<Rightarrow>
                                 (cevs @ gevs @ tevs, st',
                                  if stop_all st' then PBreak else PNext))))))"

fun page_loop ::
  "world \<Rightarrow> int option \<Rightarrow> string \<Rightarrow> int list \<Rightarrow> run_state \<Rightarrow> event list \<times> run_state \<times> bool" where
  \<comment> \<open>\<^verbatim>\<open>for page_num in range(start_page, max_pages + 1)\<close>; the flag tells whether an
      exception left the loop\<close>
  "page_loop w max_questions topic_url [] st = ([], st, False)"
| "page_loop w max_questions topic_url (page_num # rest) st =
     (case scrape_page w max_questions topic_url page_num st of
        (evs, st', PRaise) \<Rightarrow> (evs, st', True)
      | (evs, st', PBreak) \<Rightarrow> (evs, st', False)
      | (evs, st', PNext) \<Rightarrow>
          (case page_loop w max_questions topic_url rest st' of
             (evs', st'', raised) \<Rightarrow> (evs @ evs', st'', raised)))"

definition start_page_of :: "disk \<Rightarrow> string \<Rightarrow> bool \<Rightarrow> int" where
  "start_page_of fs topic_url resume =
     (if resume
      then fst (load_progress_checkpoint fs (generate_filename_from_url topic_url)) + 1
      else 1)"

definition initial_state :: "string \<Rightarrow> run_state" where
  "initial_state topic_url =
     \<lparr>accepted_results = [], no_accepted_results = [], visited_count = 0,
      base_filename = generate_filename_from_url topic_url, stop_all = False\<rparr>"

definition scrape_sap_community ::
  "world \<Rightarrow> disk \<Rightarrow> string \<Rightarrow> int \<Rightarrow> int option \<Rightarrow> bool \<Rightarrow> event list \<times> run_state \<times> bool" where
  \<comment> \<open>the trace, the final variables and whether the run ends in an exception; a run that
      returns, returns \<open>(accepted_results, no_accepted_results)\<close> of the final state\<close>
  "scrape_sap_community w fs topic_url max_pages max_questions resume =
     page_loop w max_questions topic_url [start_page_of fs topic_url resume .. max_pages]
       (initial_state topic_url)"

definition run_trace :: "world \<Rightarrow> disk \<Rightarrow> string \<Rightarrow> int \<Rightarrow> int option \<Rightarrow> bool \<Rightarrow> event list" where
  "run_trace w fs topic_url max_pages max_questions resume =
     fst (scrape_sap_community w fs topic_url max_pages max_questions resume)"

definition run_final :: "world \<Rightarrow> disk \<Rightarrow> string \<Rightarrow> int \<Rightarrow> int option \<Rightarrow> bool \<Rightarrow> run_state" where
  "run_final w fs topic_url max_pages max_questions resume =
     fst (snd (scrape_sap_community w fs topic_url max_pages max_questions resume))"

definition run_raised :: "world \<Rightarrow> disk \<Rightarrow> string \<Rightarrow> int \<Rightarrow> int option \<Rightarrow> bool \<Rightarrow> bool" where
  "run_raised w fs topic_url max_pages max_questions resume =
     snd (snd (scrape_sap_community w fs topic_url max_pages max_questions resume))"

section \<open>Reading a trace\<close>

fun appended_of :: "bool \<Rightarrow> event \<Rightarrow> thread_record list" where
  "appended_of b (EvAppend b' r) = (if b' = b then [r] else [])"
| "appended_of b _ = []"

definition appended :: "bool \<Rightarrow> event list \<Rightarrow> thread_record list" where
  \<comment> \<open>the records a trace appends to the accepted (\<open>True\<close>) or to the other collection\<close>
  "appended b evs = concat (map (appended_of b) evs)"

fun ev_page :: "event \<Rightarrow> int option" where
  \<comment> \<open>the list page an event belongs to\<close>
  "ev_page (EvCheckpoint s outcome base p u) = Some p"
| "ev_page (EvListGoto p a) = Some p"
| "ev_page (EvListFailed p) = Some p"
| "ev_page (EvNoLinks p) = Some p"
| "ev_page (EvThreadGoto p u a) = Some p"
| "ev_page (EvNavFailed p u) = Some p"
| "ev_page (EvParseError p u) = Some p"
| "ev_page (EvAppend b r) = Some (page_number r)"
| "ev_page (EvFlush outcome base a n) = None"

fun write_base :: "event \<Rightarrow> string list" where
  "write_base (EvCheckpoint s outcome base p u) = [base]"
| "write_base (EvFlush outcome base a n) = [base]"
| "write_base _ = []"

definition write_bases :: "event list \<Rightarrow> string list" where
  \<comment> \<open>the base file names that the saves of a trace use, in order\<close>
  "write_bases evs = concat (map write_base evs)"

fun writes_current :: "thread_record list \<Rightarrow> thread_record list \<Rightarrow> event list \<Rightarrow> bool" where
  \<comment> \<open>every flush of the trace is called with the collections as the appends so far have
      made them, starting from \<open>a\<close> and \<open>n\<close>\<close>
  "writes_current a n [] = True"
| "writes_current a n (EvAppend b r # es) =
     (if b then writes_current (a @ [r]) n es else writes_current a (n @ [r]) es)"
| "writes_current a n (EvFlush outcome base ra rn # es) =
     (ra = a \<and> rn = n \<and> writes_current a n es)"
| "writes_current a n (e # es) = writes_current a n es"

fun quota_trace :: "int \<Rightarrow> nat \<Rightarrow> event list \<Rightarrow> bool" where
  \<comment> \<open>with \<open>c\<close> threads counted so far: a thread is navigated to and a record is appended
      only below the quota \<open>n\<close>, and the trace ends with the checkpoint of the thread that
      completes at the quota\<close>
  "quota_trace n c [] = True"
| "quota_trace n c (EvAppend b r # es) = (int c < n \<and> quota_trace n (Suc c) es)"
| "quota_trace n c (EvThreadGoto p u a # es) = (int c < n \<and> quota_trace n c es)"
| "quota_trace n c (EvCheckpoint AtThread outcome base p u # es) =
     ((outcome \<noteq> SaveDirFails \<and> n \<le> int c \<longrightarrow> es = []) \<and> quota_trace n c es)"
| "quota_trace n c (e # es) = quota_trace n c es"

definition list_checkpoint :: "world \<Rightarrow> string \<Rightarrow> int \<Rightarrow> run_state \<Rightarrow> event" where
  \<comment> \<open>the save that opens the body of the page loop\<close>
  "list_checkpoint w topic p st =
     EvCheckpoint AtList (w_page_save w p) (base_filename st) p (topic @ ''?page='' @ show_int p)"

definition answer_classes :: "answer_elem list option \<Rightarrow> string list" where
  \<comment> \<open>the class attribute (empty when absent) of each answer element whose extraction does
      not raise\<close>
  "answer_classes answers =
     (case answers of
        None \<Rightarrow> []
      | Some elems \<Rightarrow>
          map (\<lambda>a. case ans_class a of None \<Rightarrow> [] | Some c \<Rightarrow> c)
            (filter (\<lambda>a. \<not> ans_raises a) elems))"

section \<open>A small forum\<close>

text \<open>Pages and threads on which the properties below are exercised.\<close>

definition demo_topic :: string where
  "demo_topic = ''https://community.sap.com/t5/crm-q-a/qa-p/crm''"

definition solved_answer :: answer_elem where
  "solved_answer =
     \<lparr>ans_raises = False, ans_text = ''use it'',
      ans_class = Some ''MessageView lia-accepted-solution'',
      ans_author = ''ann'', ans_date = ''may'', ans_imgs = Some []\<rparr>"

definition open_answer :: answer_elem where
  "open_answer =
     \<lparr>ans_raises = False, ans_text = ''maybe'', ans_class = Some ''MessageView'',
      ans_author = ''bob'', ans_date = ''june'', ans_imgs = Some []\<rparr>"

definition thread_with :: "answer_elem list \<Rightarrow> thread_page" where
  "thread_with answers =
     \<lparr>tp_goto = (\<lambda>_. True),
      tp_dom = \<lparr>td_title = Some ''T'', td_body = BodyFound ''Q'' (Some []),
                td_meta = Some ([], ''S''), td_answers = Some answers\<rparr>,
      tp_flush = FlushOk, tp_save = SaveOk\<rparr>"

definition page_with :: "string list \<Rightarrow> list_page" where
  "page_with hrefs =
     \<lparr>lp_goto = (\<lambda>_. GotoOk), lp_wait = WaitOk,
      lp_thread_links = Some (map (\<lambda>h. Href (Some h)) hrefs),
      lp_title_links = Some [], lp_t5_links = Some []\<rparr>"

definition demo_world :: world where
  \<comment> \<open>page 2 lists a solved and an open thread, every other page lists nothing\<close>
  "demo_world =
     \<lparr>w_urljoin = (\<lambda>b s. b @ s), w_page_save = (\<lambda>_. SaveOk),
      w_list_page = (\<lambda>p. if p = 2 then page_with [''/t5/crm-q-a/a/qaq-p/1'', ''/t5/crm-q-a/b/qaq-p/2'']
                          else page_with []),
      w_thread_page = (\<lambda>p u. if u = ''https://community.sap.com/t5/crm-q-a/a/qaq-p/1''
                             then thread_with [solved_answer] else thread_with [open_answer])\<rparr>"

definition drift_world :: world where
  \<comment> \<open>page 1 lists one thread, which lives on another board\<close>
  "drift_world =
     \<lparr>w_urljoin = (\<lambda>b s. b @ s), w_page_save = (\<lambda>_. SaveOk),
      w_list_page = (\<lambda>p. if p = 1 then page_with [''/t5/erp-q-a/c/qaq-p/3''] else page_with []),
      w_thread_page = (\<lambda>p u. thread_with [solved_answer])\<rparr>"

definition crash_world :: world where
  \<comment> \<open>the link query on the list pages raises\<close>
  "crash_world =
     \<lparr>w_urljoin = (\<lambda>b s. b @ s), w_page_save = (\<lambda>_. SaveOk),
      w_list_page = (\<lambda>p. (page_with [])\<lparr>lp_thread_links := None\<rparr>),
      w_thread_page = (\<lambda>p u. thread_with [])\<rparr>"


definition old_record :: thread_record where
  "old_record = base_result 1 ''S'' ''old'' ''Q'' [] [] ''https://community.sap.com/t5/crm-q-a/o/qaq-p/0'' []"

definition old_disk :: disk where
  \<comment> \<open>what an earlier run on \<open>demo_topic\<close> left: the checkpoint of page 1 and one record\<close>
  "old_disk =
     [checkpoint_file ''sap_community_crm_q_a'' \<mapsto> CheckpointFile 1 ''https://community.sap.com/t5/crm-q-a/o/qaq-p/0'',
      accepted_json_file ''sap_community_crm_q_a'' \<mapsto> RecordsFile [old_record],
      no_accepted_json_file ''sap_community_crm_q_a'' \<mapsto> RecordsFile [old_record]]"

definition failing_img :: img_elem where
  "failing_img = \<lparr>img_src = Some ''/i/a.png'', img_alt = Some ''a'', img_fetch = FetchStatus 404,
                  img_write_ok = True\<rparr>"

definition good_img :: img_elem where
  "good_img = \<lparr>img_src = Some ''//cdn/b.png'', img_alt = None, img_fetch = FetchStatus 200,
               img_write_ok = True\<rparr>"

section \<open>The link filter computes what the specification describes\<close>

lemma filter_loop_eq:
  "filter_loop acc hrefs = acc @ filter valid_thread_url (map normalize_href hrefs)"
  by (induction hrefs arbitrary: acc) (auto simp: valid_thread_url_def Let_def)

lemma dedup_loop_eq:
  "dedup_loop seen acc us = acc @ first_seen (filter (\<lambda>u. u \<notin> seen) us)"
proof (induction us arbitrary: seen acc)
  case Nil
  show ?case by simp
next
  case (Cons u us)
  have f: "filter (\<lambda>v. v \<noteq> u) (filter (\<lambda>v. v \<notin> seen) us) = filter (\<lambda>v. v \<notin> insert u seen) us"
    by (induction us) auto
  show ?case using Cons.IH f by simp
qed

lemma first_seen_set: "set (first_seen xs) = set xs"
  by (induction xs rule: first_seen.induct) auto

lemma first_seen_distinct: "distinct (first_seen xs)"
  by (induction xs rule: first_seen.induct) (auto simp: first_seen_set)

lemma first_seen_order: "first_seen xs = rev (remdups (rev xs))"
proof (induction xs rule: first_seen.induct)
  case 1
  show ?case by simp
next
  case (2 u us)
  have r: "remdups (ys @ [u]) = filter (\<lambda>v. v \<noteq> u) (remdups ys) @ [u]" for ys :: "string list"
    by (induction ys) auto
  have "first_seen (u # us) = u # rev (remdups (rev (filter (\<lambda>v. v \<noteq> u) us)))"
    using 2 by simp
  also have "\<dots> = u # rev (filter (\<lambda>v. v \<noteq> u) (remdups (rev us)))"
    by (simp add: rev_filter remdups_filter)
  also have "\<dots> = rev (remdups (rev (u # us)))"
    by (simp add: r)
  finally show ?case .
qed

text \<open>
  Claim C6.  For every list of discovered hrefs, the two loops of the link filter yield the
  normalized URLs that do not contain the profile-page pattern and do match the thread
  pattern, each kept once at its first occurrence: the filter of the specification
  (\<open>spec_filter_links\<close>, whose \<open>first_seen\<close> is free of duplicates, keeps every element and
  keeps the order of first occurrences, by the three lemmas above).
\<close>

theorem filter_links_meets_spec: "filter_links hrefs = spec_filter_links hrefs"
  by (simp add: filter_links_def spec_filter_links_def filter_loop_eq dedup_loop_eq)

theorem filter_links_meets_spec_witness:
  "filter_links [''/t5/a-q-a/x/qaq-p/1'', ''/t5/user/viewprofilepage/user-id/3'',
                 ''/t5/a-q-a/y/qaa-p/2'', ''/t5/a-q-a/x/qaq-p/1'', ''/about'']
     = [''https://community.sap.com/t5/a-q-a/x/qaq-p/1'',
        ''https://community.sap.com/t5/a-q-a/y/qaa-p/2'']"
proof -
  have "spec_filter_links [''/t5/a-q-a/x/qaq-p/1'', ''/t5/user/viewprofilepage/user-id/3'',
                 ''/t5/a-q-a/y/qaa-p/2'', ''/t5/a-q-a/x/qaq-p/1'', ''/about'']
     = [''https://community.sap.com/t5/a-q-a/x/qaq-p/1'',
        ''https://community.sap.com/t5/a-q-a/y/qaa-p/2'']"
    by code_simp
  then show ?thesis
    using filter_links_meets_spec
      [of "[''/t5/a-q-a/x/qaq-p/1'', ''/t5/user/viewprofilepage/user-id/3'',
            ''/t5/a-q-a/y/qaa-p/2'', ''/t5/a-q-a/x/qaq-p/1'', ''/about'']"]
    by simp
qed

section \<open>What each level of the crawl does to the state and to the trace\<close>

lemma appended_simps [simp]:
  "appended b [] = []"
  "appended b (e # es) = appended_of b e @ appended b es"
  "appended b (xs @ ys) = appended b xs @ appended b ys"
  by (simp_all add: appended_def)



lemma save_results_no_append:
  "save_results_incrementally outcome base a n = (evs, r) \<Longrightarrow> appended b evs = []"
  by (auto simp: save_results_incrementally_def)


lemma save_and_check_state:
  assumes "save_and_check mq tp p q st = (evs, st', c)"
  shows "accepted_results st' = accepted_results st" "no_accepted_results st' = no_accepted_results st"
    "visited_count st' = visited_count st" "base_filename st' = base_filename st"
    "appended b evs = []" "c = StopAll \<Longrightarrow> stop_all st' \<and> quota_reached mq st'"
    "c = Next \<Longrightarrow> stop_all st' = stop_all st"
  using assms save_results_no_append
  by (auto simp: save_and_check_def save_progress_checkpoint_def quota_reached_def split: prod.splits bool.splits if_splits option.splits)



lemma save_results_pages:
  "save_results_incrementally outcome base a n = (evs, r) \<Longrightarrow> e \<in> set evs \<Longrightarrow> ev_page e = None \<and> e \<noteq> EvNoLinks k"
  by (auto simp: save_results_incrementally_def)


lemma save_and_check_pages:
  assumes "save_and_check mq tp p q st = (evs, st', c)" "e \<in> set evs"
  shows "(ev_page e = None \<or> ev_page e = Some p) \<and> e \<noteq> EvNoLinks k"
  using assms save_results_pages
  by (fastforce simp: save_and_check_def save_progress_checkpoint_def split: prod.splits bool.splits if_splits)



lemma classify_cases:
  assumes "classify mq tp p q base st = (evs, st', c)"
  obtains b r evs0 st1 where
    "evs = EvAppend b r # evs0"
    "save_and_check mq tp p q st1 = (evs0, st', c)"
    "accepted_results st1 = accepted_results st @ (if b then [r] else [])"
    "no_accepted_results st1 = no_accepted_results st @ (if b then [] else [r])"
    "visited_count st1 = Suc (visited_count st)"
    "base_filename st1 = base_filename st"
    "stop_all st1 = stop_all st"
    "page_number r = page_number base" "url r = url base"
    "all_responses r = all_responses base"
    "b = (\<exists>a\<in>set (all_responses base). is_accepted a)"
    "title r = title base" "question r = question base" "tags r = tags base"
    "system r = system base" "question_images r = question_images base"
    "total_responses r = total_responses base"
proof (cases "filter is_accepted (all_responses base) = []")
  case True
  define r where "r = base\<lparr>non_accepted_responses := filter (\<lambda>r. \<not> is_accepted r) (all_responses base),
      primary_response := Some (if filter (\<lambda>r. \<not> is_accepted r) (all_responses base) \<noteq> []
         then response_text (hd (filter (\<lambda>r. \<not> is_accepted r) (all_responses base))) else [])\<rparr>"
  define st1 where "st1 = st\<lparr>no_accepted_results := no_accepted_results st @ [r],
                         visited_count := visited_count st + 1\<rparr>"
  from assms True have eq: "(case save_and_check mq tp p q st1 of
                 (evs, st'', c) \<Rightarrow> (EvAppend False r # evs, st'', c)) = (evs, st', c)"
    by (simp add: classify_def Let_def r_def st1_def)
  obtain evs0 where e: "save_and_check mq tp p q st1 = (evs0, st', c)" "evs = EvAppend False r # evs0"
    using eq by (cases "save_and_check mq tp p q st1") auto
  have nb: "\<not> (\<exists>a\<in>set (all_responses base). is_accepted a)"
    using True by (simp add: filter_empty_conv)
  show ?thesis
    by (rule that[of False r evs0 st1]) (use e nb in \<open>simp_all add: st1_def r_def\<close>)
next
  case False
  define r where "r = base\<lparr>accepted_responses := Some (filter is_accepted (all_responses base)),
       non_accepted_responses := filter (\<lambda>r. \<not> is_accepted r) (all_responses base),
       primary_accepted_response := Some (response_text (hd (filter is_accepted (all_responses base))))\<rparr>"
  define st1 where "st1 = st\<lparr>accepted_results := accepted_results st @ [r],
                         visited_count := visited_count st + 1\<rparr>"
  from assms False have eq: "(case save_and_check mq tp p q st1 of
                 (evs, st'', c) \<Rightarrow> (EvAppend True r # evs, st'', c)) = (evs, st', c)"
    by (simp add: classify_def Let_def r_def st1_def)
  obtain evs0 where e: "save_and_check mq tp p q st1 = (evs0, st', c)" "evs = EvAppend True r # evs0"
    using eq by (cases "save_and_check mq tp p q st1") auto
  have nb: "(\<exists>a\<in>set (all_responses base). is_accepted a)"
    using False by (simp add: filter_empty_conv)
  show ?thesis
    by (rule that[of True r evs0 st1]) (use e nb in \<open>simp_all add: st1_def r_def\<close>)
qed



lemma classify_pages:
  assumes "classify mq tp p q base st = (evs, st', c)" "e \<in> set evs" "page_number base = p"
  shows "(ev_page e = None \<or> ev_page e = Some p) \<and> e \<noteq> EvNoLinks k"
proof -
  from assms(1) obtain b r evs0 st1 where h:
    "evs = EvAppend b r # evs0"
    "save_and_check mq tp p q st1 = (evs0, st', c)"
    "page_number r = page_number base"
    by (rule classify_cases)
  show ?thesis
    using assms(2,3) h(1,3) save_and_check_pages[OF h(2), of e k] by auto
qed



lemma parse_thread_cases:
  assumes "parse_thread w mq p q st = (evs, st', c)"
  obtains (err) "evs = [EvParseError p q]" "c = Next"
      "accepted_results st' = accepted_results st"
      "no_accepted_results st' = no_accepted_results st"
      "visited_count st' = visited_count st" "stop_all st' = stop_all st"
  | (ok) st1 base where
      "classify mq (w_thread_page w p q) p q base st1 = (evs, st', c)"
      "page_number base = p" "url base = q"
      "accepted_results st1 = accepted_results st"
      "no_accepted_results st1 = no_accepted_results st"
      "visited_count st1 = visited_count st" "stop_all st1 = stop_all st"
proof (cases "td_title (tp_dom (w_thread_page w p q))")
  case None
  with assms have "evs = [EvParseError p q] \<and> c = Next \<and> st' = st"
    by (simp add: parse_thread_def Let_def)
  then show ?thesis using err by simp
next
  case (Some ttl)
  note ttl = Some
  show ?thesis
  proof (cases "td_body (tp_dom (w_thread_page w p q)) = BodyRaises")
    case True
    with assms ttl have "evs = [EvParseError p q] \<and> c = Next \<and> st' = st"
      by (simp add: parse_thread_def Let_def)
    then show ?thesis using err by simp
  next
    case False
    define st1 where "st1 = (case td_body (tp_dom (w_thread_page w p q)) of
                             BodyFound _ _ \<Rightarrow> st\<lparr>base_filename := generate_filename_from_url q\<rparr>
                           | _ \<Rightarrow> st)"
    have st1: "accepted_results st1 = accepted_results st"
      "no_accepted_results st1 = no_accepted_results st"
      "visited_count st1 = visited_count st" "stop_all st1 = stop_all st"
      by (simp_all add: st1_def split: body_step.splits)
    show ?thesis
    proof (cases "td_meta (tp_dom (w_thread_page w p q))")
      case None
      with assms ttl False have "evs = [EvParseError p q] \<and> c = Next \<and> st' = st1"
        by (auto simp: parse_thread_def Let_def st1_def split: body_step.splits)
      then show ?thesis using err st1 by simp
    next
      case (Some m)
      obtain tgs sys where m: "m = (tgs, sys)" by (cases m)
      from assms ttl False Some m obtain base where
        "classify mq (w_thread_page w p q) p q base st1 = (evs, st', c)"
        "page_number base = p" "url base = q"
        by (auto simp: parse_thread_def Let_def st1_def base_result_def split: body_step.splits)
      then show ?thesis using ok st1 by blast
    qed
  qed
qed



lemma parse_thread_pages:
  assumes "parse_thread w mq p q st = (evs, st', c)" "e \<in> set evs"
  shows "(ev_page e = None \<or> ev_page e = Some p) \<and> e \<noteq> EvNoLinks k"
  using assms(1)
proof (cases rule: parse_thread_cases)
  case err
  then show ?thesis using assms(2) by auto
next
  case (ok st1 base)
  then show ?thesis using classify_pages[OF ok(1) assms(2) ok(2)] by simp
qed


lemma visit_thread_cases:
  assumes "visit_thread w mq p q0 st = (evs, st', c)"
  obtains (nav) q where "evs = [EvThreadGoto p q 0, EvThreadGoto p q 1, EvNavFailed p q]"
      "st' = st" "c = Next"
  | (parsed) q gevs pevs where "evs = gevs @ pevs"
      "gevs = [EvThreadGoto p q 0] \<or> gevs = [EvThreadGoto p q 0, EvThreadGoto p q 1]"
      "parse_thread w mq p q st = (pevs, st', c)"
proof -
  define q where "q = (if \<not> startswith q0 ''http'' then ''https://community.sap.com'' @ q0 else q0)"
  consider "tp_goto (w_thread_page w p q) 0"
    | "\<not> tp_goto (w_thread_page w p q) 0" "tp_goto (w_thread_page w p q) 1"
    | "\<not> tp_goto (w_thread_page w p q) 0" "\<not> tp_goto (w_thread_page w p q) 1" by blast
  then show ?thesis
  proof cases
    case 1
    with assms obtain pevs where "parse_thread w mq p q st = (pevs, st', c)"
        "evs = [EvThreadGoto p q 0] @ pevs"
      by (auto simp: visit_thread_def Let_def q_def[symmetric] split: prod.splits)
    then show ?thesis using parsed by blast
  next
    case 2
    with assms obtain pevs where "parse_thread w mq p q st = (pevs, st', c)"
        "evs = [EvThreadGoto p q 0, EvThreadGoto p q 1] @ pevs"
      by (auto simp: visit_thread_def Let_def q_def[symmetric] split: prod.splits)
    then show ?thesis using parsed by blast
  next
    case 3
    with assms have "evs = [EvThreadGoto p q 0, EvThreadGoto p q 1, EvNavFailed p q]"
      "st' = st" "c = Next"
      by (auto simp: visit_thread_def Let_def q_def[symmetric])
    then show ?thesis using nav by blast
  qed
qed



lemma visit_thread_pages:
  assumes "visit_thread w mq p q st = (evs, st', c)" "e \<in> set evs"
  shows "(ev_page e = None \<or> ev_page e = Some p) \<and> e \<noteq> EvNoLinks k"
  using assms
  by (cases rule: visit_thread_cases) (auto dest: parse_thread_pages[where k=k])



lemma thread_loop_cases:
  assumes "thread_loop w mq p (q # qs) st = (evs, st', c)"
  obtains (stop) "quota_reached mq st" "evs = []" "st' = st\<lparr>stop_all := True\<rparr>" "c = StopAll"
  | (brk) "\<not> quota_reached mq st" "visit_thread w mq p q st = (evs, st', StopAll)" "c = StopAll"
  | (cont) evs1 st1 evs2 where "\<not> quota_reached mq st"
      "visit_thread w mq p q st = (evs1, st1, Next)"
      "thread_loop w mq p qs st1 = (evs2, st', c)" "evs = evs1 @ evs2"
proof (cases "quota_reached mq st")
  case True
  with assms show ?thesis using stop by simp
next
  case False
  obtain evs1 st1 c1 where v: "visit_thread w mq p q st = (evs1, st1, c1)"
    by (cases "visit_thread w mq p q st") auto
  show ?thesis
  proof (cases c1)
    case StopAll
    with assms False v show ?thesis using brk by simp
  next
    case Next
    obtain evs2 st2 c2 where t: "thread_loop w mq p qs st1 = (evs2, st2, c2)"
      by (cases "thread_loop w mq p qs st1") auto
    with assms False v Next show ?thesis using cont by simp
  qed
qed



lemma thread_loop_pages:
  "thread_loop w mq p qs st = (evs, st', c) \<Longrightarrow> e \<in> set evs \<Longrightarrow>
     (ev_page e = None \<or> ev_page e = Some p) \<and> e \<noteq> EvNoLinks k"
proof (induction qs arbitrary: st evs st' c)
  case Nil
  then show ?case by simp
next
  case (Cons q qs)
  from Cons.prems(1) show ?case
  proof (cases rule: thread_loop_cases)
    case stop
    then show ?thesis using Cons.prems(2) by simp
  next
    case brk
    then show ?thesis using visit_thread_pages[OF brk(2) Cons.prems(2)] by simp
  next
    case (cont evs1 st1 evs2)
    then show ?thesis
      using visit_thread_pages[OF cont(2), of e k] Cons.IH[OF cont(3)] Cons.prems(2) by auto
  qed
qed





lemma goto_attempts_events:
  "goto_attempts g p as = (evs, ok) \<Longrightarrow> e \<in> set evs \<Longrightarrow> \<exists>a. e = EvListGoto p a"
proof (induction as arbitrary: evs ok)
  case Nil
  then show ?case by simp
next
  case (Cons a as)
  obtain evs2 ok2 where r: "goto_attempts g p as = (evs2, ok2)"
    by (cases "goto_attempts g p as") auto
  show ?case
  proof (cases "g a = GotoOk")
    case True
    with Cons.prems show ?thesis by auto
  next
    case False
    with Cons.prems r have "evs = EvListGoto p a # evs2"
      by (cases "g a") auto
    then show ?thesis using Cons.IH[OF r] Cons.prems(2) by auto
  qed
qed


lemma scrape_page_cases:
  assumes "scrape_page w mq topic p st = (evs, st', c)"
  obtains (ckraise) "w_page_save w p = SaveDirFails"
      "evs = [list_checkpoint w topic p st]" "st' = st" "c = PRaise"
  | (loadfail) gevs where
      "evs = list_checkpoint w topic p st # gevs @ [EvListFailed p]"
      "\<forall>e\<in>set gevs. \<exists>a. e = EvListGoto p a" "st' = st" "c = PNext"
  | (selraise) gevs where
      "lp_wait (w_list_page w p) = WaitError \<or> discover_links (w_list_page w p) = None"
      "evs = list_checkpoint w topic p st # gevs"
      "\<forall>e\<in>set gevs. \<exists>a. e = EvListGoto p a" "st' = st" "c = PRaise"
  | (nolinks) gevs hrefs where
      "discover_links (w_list_page w p) = Some hrefs" "filter_links hrefs = []"
      "evs = list_checkpoint w topic p st # gevs @ [EvNoLinks p]"
      "\<forall>e\<in>set gevs. \<exists>a. e = EvListGoto p a" "st' = st" "c = PBreak"
  | (threads) gevs hrefs tevs tc where
      "w_page_save w p \<noteq> SaveDirFails"
      "discover_links (w_list_page w p) = Some hrefs" "filter_links hrefs \<noteq> []"
      "thread_loop w mq p (filter_links hrefs) st = (tevs, st', tc)"
      "evs = list_checkpoint w topic p st # gevs @ tevs"
      "\<forall>e\<in>set gevs. \<exists>a. e = EvListGoto p a"
      "c = (if stop_all st' then PBreak else PNext)"
proof (cases "w_page_save w p = SaveDirFails")
  case True
  with assms have "evs = [list_checkpoint w topic p st] \<and> st' = st \<and> c = PRaise"
    by (auto simp: scrape_page_def save_progress_checkpoint_def Let_def list_checkpoint_def)
  then show ?thesis using ckraise True by blast
next
  case nodir: False
  obtain gevs ok where g: "goto_attempts (lp_goto (w_list_page w p)) p [0, 1, 2] = (gevs, ok)"
    by (cases "goto_attempts (lp_goto (w_list_page w p)) p [0, 1, 2]") auto
  have ge: "\<forall>e\<in>set gevs. \<exists>a. e = EvListGoto p a"
    using goto_attempts_events[OF g] by blast
  note defs = scrape_page_def save_progress_checkpoint_def Let_def list_checkpoint_def
  show ?thesis
  proof (cases ok)
    case False
    with assms nodir g
    have "evs = list_checkpoint w topic p st # gevs @ [EvListFailed p] \<and> st' = st \<and> c = PNext"
      by (auto simp: defs)
    then show ?thesis using loadfail ge by blast
  next
    case ok: True
    show ?thesis
    proof (cases "lp_wait (w_list_page w p) = WaitError")
      case True
      with assms nodir g ok
      have "evs = list_checkpoint w topic p st # gevs \<and> st' = st \<and> c = PRaise"
        by (auto simp: defs)
      then show ?thesis using selraise ge True by blast
    next
      case nowait: False
      show ?thesis
      proof (cases "discover_links (w_list_page w p)")
        case None
        with assms nodir g ok nowait
        have "evs = list_checkpoint w topic p st # gevs \<and> st' = st \<and> c = PRaise"
          by (auto simp: defs)
        then show ?thesis using selraise ge None by blast
      next
        case (Some hrefs)
        show ?thesis
        proof (cases "filter_links hrefs = []")
          case True
          with assms nodir g ok nowait Some
          have "evs = list_checkpoint w topic p st # gevs @ [EvNoLinks p] \<and> st' = st \<and> c = PBreak"
            by (auto simp: defs)
          then show ?thesis using nolinks ge Some True by blast
        next
          case False
          obtain tevs st2 tc where t: "thread_loop w mq p (filter_links hrefs) st = (tevs, st2, tc)"
            by (cases "thread_loop w mq p (filter_links hrefs) st") auto
          with assms nodir g ok nowait Some False
          have "evs = list_checkpoint w topic p st # gevs @ tevs \<and> st' = st2
                  \<and> c = (if stop_all st' then PBreak else PNext)"
            by (auto simp: defs)
          then show ?thesis using threads[OF nodir Some False _ _ ge] t by blast
        qed
      qed
    qed
  qed
qed

lemma list_checkpoint_simps [simp]:
  "appended_of b (list_checkpoint w topic p st) = []"
  "ev_page (list_checkpoint w topic p st) = Some p"
  "list_checkpoint w topic p st \<noteq> EvNoLinks k"
  "EvNoLinks k \<noteq> list_checkpoint w topic p st"
  "writes_current a n (list_checkpoint w topic p st # es) = writes_current a n es"
  "quota_trace m c (list_checkpoint w topic p st # es) = quota_trace m c es"
  by (simp_all add: list_checkpoint_def)



lemma scrape_page_pages:
  assumes "scrape_page w mq topic p st = (evs, st', c)" "e \<in> set evs"
  shows "ev_page e = None \<or> ev_page e = Some p"
  using assms(1)
proof (cases rule: scrape_page_cases)
  case ckraise
  then show ?thesis using assms(2) by simp
next
  case (loadfail gevs)
  then show ?thesis using assms(2) by auto
next
  case (selraise gevs)
  then show ?thesis using assms(2) by auto
next
  case (nolinks gevs hrefs)
  then show ?thesis using assms(2) by auto
next
  case (threads gevs hrefs tevs tc)
  show ?thesis
    using thread_loop_pages[OF threads(4), of e] threads(5,6) assms(2) by auto
qed

lemma scrape_page_page_eq:
  assumes "scrape_page w mq topic p st = (evs, st', c)" "e \<in> set evs" "ev_page e = Some j"
  shows "j = p"
  using scrape_page_pages[OF assms(1,2)] assms(3) by simp

lemma scrape_page_no_links:
  assumes "scrape_page w mq topic p st = (evs, st', c)" "EvNoLinks k \<in> set evs"
  shows "k = p \<and> c = PBreak \<and> (\<exists>pre. evs = pre @ [EvNoLinks p])
         \<and> (\<exists>hrefs. discover_links (w_list_page w p) = Some hrefs \<and> filter_links hrefs = [])"
  using assms(1)
proof (cases rule: scrape_page_cases)
  case ckraise
  then show ?thesis using assms(2) by simp
next
  case (loadfail gevs)
  then show ?thesis using assms(2) by auto
next
  case (selraise gevs)
  then show ?thesis using assms(2) by auto
next
  case (nolinks gevs hrefs)
  have "k = p" using nolinks(3,4) assms(2) by auto
  moreover have "evs = (list_checkpoint w topic p st # gevs) @ [EvNoLinks p]"
    using nolinks(3) by simp
  ultimately show ?thesis using nolinks(1,2,6) by blast
next
  case (threads gevs hrefs tevs tc)
  show ?thesis
    using thread_loop_pages[OF threads(4), of "EvNoLinks k" k] threads(5,6) assms(2) by auto
qed




lemma page_loop_cases:
  assumes "page_loop w mq topic (p # ps) st = (evs, st', r)"
  obtains (raise) "scrape_page w mq topic p st = (evs, st', PRaise)" "r"
  | (brk) "scrape_page w mq topic p st = (evs, st', PBreak)" "\<not> r"
  | (cont) evs1 st1 evs2 where "scrape_page w mq topic p st = (evs1, st1, PNext)"
      "page_loop w mq topic ps st1 = (evs2, st', r)" "evs = evs1 @ evs2"
proof -
  obtain evs1 st1 c1 where sp: "scrape_page w mq topic p st = (evs1, st1, c1)"
    by (cases "scrape_page w mq topic p st") auto
  obtain evs2 st2 r2 where pl: "page_loop w mq topic ps st1 = (evs2, st2, r2)"
    by (cases "page_loop w mq topic ps st1") auto
  show ?thesis
  proof (cases c1)
    case PNext
    with assms sp pl show ?thesis using cont by simp
  next
    case PBreak
    with assms sp show ?thesis using brk by simp
  next
    case PRaise
    with assms sp show ?thesis using raise by simp
  qed
qed



lemma page_loop_pages:
  "page_loop w mq topic ps st = (evs, st', r) \<Longrightarrow> e \<in> set evs \<Longrightarrow> ev_page e = Some k \<Longrightarrow> k \<in> set ps"
proof (induction ps arbitrary: st evs st' r)
  case Nil
  then show ?case by simp
next
  case (Cons p ps)
  from Cons.prems(1) show ?case
  proof (cases rule: page_loop_cases)
    case raise
    then show ?thesis using scrape_page_pages[OF raise(1) Cons.prems(2)] Cons.prems(3) by simp
  next
    case brk
    then show ?thesis using scrape_page_pages[OF brk(1) Cons.prems(2)] Cons.prems(3) by simp
  next
    case (cont evs1 st1 evs2)
    then show ?thesis
      using scrape_page_pages[OF cont(1), of e] Cons.IH[OF cont(2)] Cons.prems(2,3) by auto
  qed
qed




lemma page_loop_no_links:
  "page_loop w mq topic ps st = (evs, st', r) \<Longrightarrow> sorted ps \<Longrightarrow> EvNoLinks k \<in> set evs \<Longrightarrow>
     (\<exists>pre. evs = pre @ [EvNoLinks k]) \<and> (\<forall>e\<in>set evs. \<forall>j. ev_page e = Some j \<longrightarrow> j \<le> k)"
proof (induction ps arbitrary: st evs st' r)
  case Nil
  then show ?case by simp
next
  case (Cons p ps)
  from Cons.prems(1) show ?case
  proof (cases rule: page_loop_cases)
    case raise
    then show ?thesis using scrape_page_no_links[OF raise(1) Cons.prems(3)] by simp
  next
    case brk
    have "k = p" "\<exists>pre. evs = pre @ [EvNoLinks p]"
      using scrape_page_no_links[OF brk(1) Cons.prems(3)] by auto
    moreover have "\<forall>e\<in>set evs. \<forall>j. ev_page e = Some j \<longrightarrow> j \<le> p"
      using scrape_page_page_eq[OF brk(1)] by blast
    ultimately show ?thesis by simp
  next
    case (cont evs1 st1 evs2)
    have n1: "EvNoLinks k \<notin> set evs1"
      using scrape_page_no_links[OF cont(1), of k] by auto
    then have in2: "EvNoLinks k \<in> set evs2" using Cons.prems(3) cont(3) by simp
    have s: "sorted ps" using Cons.prems(2) by simp
    note ih = Cons.IH[OF cont(2) s in2]
    have "k \<in> set ps" using page_loop_pages[OF cont(2) in2] by simp
    then have pk: "p \<le> k" using Cons.prems(2) by auto
    from ih obtain pre where "evs2 = pre @ [EvNoLinks k]" by blast
    then have "evs = (evs1 @ pre) @ [EvNoLinks k]" using cont(3) by simp
    moreover have "\<forall>e\<in>set evs1. \<forall>j. ev_page e = Some j \<longrightarrow> j \<le> k"
      using scrape_page_page_eq[OF cont(1)] pk by blast
    then have "\<forall>e\<in>set evs. \<forall>j. ev_page e = Some j \<longrightarrow> j \<le> k"
      using ih cont(3) by auto
    ultimately show ?thesis by blast
  qed
qed

section \<open>Properties of a run\<close>

lemma run_unfold:
  "page_loop w mq topic [start_page_of fs topic res .. mp] (initial_state topic)
     = (run_trace w fs topic mp mq res, run_final w fs topic mp mq res, run_raised w fs topic mp mq res)"
  by (simp add: run_trace_def run_final_def run_raised_def scrape_sap_community_def)

lemma initial_state_simps [simp]:
  "accepted_results (initial_state topic) = []"
  "no_accepted_results (initial_state topic) = []"
  "visited_count (initial_state topic) = 0"
  "base_filename (initial_state topic) = generate_filename_from_url topic"
  "stop_all (initial_state topic) = False"
  by (simp_all add: initial_state_def)








lemma page_loop_no_links_cause:
  "page_loop w mq topic ps st = (evs, st', r) \<Longrightarrow> EvNoLinks k \<in> set evs \<Longrightarrow>
     \<exists>hrefs. discover_links (w_list_page w k) = Some hrefs \<and> filter_links hrefs = []"
proof (induction ps arbitrary: st evs st' r)
  case Nil
  then show ?case by simp
next
  case (Cons p ps)
  from Cons.prems(1) show ?case
  proof (cases rule: page_loop_cases)
    case raise
    then show ?thesis using scrape_page_no_links[OF raise(1) Cons.prems(2)] by simp
  next
    case brk
    then show ?thesis using scrape_page_no_links[OF brk(1) Cons.prems(2)] by simp
  next
    case (cont evs1 st1 evs2)
    have "EvNoLinks k \<notin> set evs1"
      using scrape_page_no_links[OF cont(1), of k] by auto
    then have "EvNoLinks k \<in> set evs2" using Cons.prems(2) cont(3) by simp
    then show ?thesis using Cons.IH[OF cont(2)] by simp
  qed
qed







lemma zero_links_page_breaks:
  assumes "w_page_save w p \<noteq> SaveDirFails"
    and "snd (goto_attempts (lp_goto (w_list_page w p)) p [0, 1, 2])"
    and "lp_wait (w_list_page w p) \<noteq> WaitError"
    and "discover_links (w_list_page w p) = Some hrefs"
    and "filter_links hrefs = []"
  shows "\<exists>evs. scrape_page w mq topic p st = (evs @ [EvNoLinks p], st, PBreak)"
proof -
  obtain gevs ok where g: "goto_attempts (lp_goto (w_list_page w p)) p [0, 1, 2] = (gevs, ok)"
    by (cases "goto_attempts (lp_goto (w_list_page w p)) p [0, 1, 2]") auto
  then have ok using assms(2) by simp
  then have "scrape_page w mq topic p st
               = ((list_checkpoint w topic p st # gevs) @ [EvNoLinks p], st, PBreak)"
    using assms g
    by (auto simp: scrape_page_def save_progress_checkpoint_def Let_def list_checkpoint_def)
  then show ?thesis by blast
qed

text \<open>
  Claim C8.  The event \<open>EvNoLinks k\<close> is what the run does when list page \<open>k\<close> has been
  loaded and its links filter down to nothing (last conjunct, and \<open>zero_links_page_breaks\<close>
  for the converse).  When it happens it is the
  last event of the run, and no event of the run belongs to a page above \<open>k\<close>: no further
  list page and no further thread is visited.
\<close>

theorem no_links_ends_run:
  assumes "EvNoLinks k \<in> set (run_trace w fs topic mp mq res)"
  shows "(\<exists>pre. run_trace w fs topic mp mq res = pre @ [EvNoLinks k]) \<and>
         (\<forall>e\<in>set (run_trace w fs topic mp mq res). \<forall>j. ev_page e = Some j \<longrightarrow> j \<le> k) \<and>
         (\<exists>hrefs. discover_links (w_list_page w k) = Some hrefs \<and> filter_links hrefs = [])"
  using page_loop_no_links[OF run_unfold _ assms] page_loop_no_links_cause[OF run_unfold assms]
  by simp

theorem no_links_ends_run_witness:
  "EvNoLinks 3 \<in> set (run_trace demo_world old_disk demo_topic 9 None True)
   \<and> last (run_trace demo_world old_disk demo_topic 9 None True) = EvNoLinks 3"
proof -
  have h: "EvNoLinks 3 \<in> set (run_trace demo_world old_disk demo_topic 9 None True)"
    by code_simp
  show ?thesis using no_links_ends_run[OF h] h by auto
qed




section \<open>Properties of a thread\<close>

lemma startswith_iff: "startswith s p \<longleftrightarrow> (\<exists>post. s = p @ post)"
proof
  assume "startswith s p"
  then have "s = p @ drop (length p) s"
    by (metis append_take_drop_id startswith_def)
  then show "\<exists>post. s = p @ post" by blast
next
  assume "\<exists>post. s = p @ post"
  then show "startswith s p" by (auto simp: startswith_def)
qed

lemma contains_iff: "contains p s \<longleftrightarrow> (\<exists>pre post. s = pre @ p @ post)"
proof (induction s)
  case Nil
  show ?case by auto
next
  case (Cons c cs)
  show ?case
  proof
    assume "contains p (c # cs)"
    then consider "startswith (c # cs) p" | "contains p cs" by auto
    then show "\<exists>pre post. c # cs = pre @ p @ post"
    proof cases
      case 1
      then obtain post where "c # cs = p @ post" using startswith_iff by blast
      then have "c # cs = [] @ p @ post" by simp
      then show ?thesis by blast
    next
      case 2
      then obtain pre post where "cs = pre @ p @ post" using Cons.IH by blast
      then have "c # cs = (c # pre) @ p @ post" by simp
      then show ?thesis by blast
    qed
  next
    assume "\<exists>pre post. c # cs = pre @ p @ post"
    then obtain pre post where e: "c # cs = pre @ p @ post" by blast
    show "contains p (c # cs)"
    proof (cases pre)
      case Nil
      then have "startswith (c # cs) p" using e startswith_iff by auto
      then show ?thesis by simp
    next
      case (Cons d pre')
      then have "cs = pre' @ p @ post" using e by simp
      then have "contains p cs" using Cons.IH by blast
      then show ?thesis by simp
    qed
  qed
qed

lemma responses_loop_is_accepted:
  "map is_accepted (responses_loop uj u i acc elems)
     = map is_accepted acc @ map accepted_class (answer_classes (Some elems))"
  by (induction elems arbitrary: i acc) (auto simp: answer_classes_def response_data_def Let_def)

lemma extract_all_responses_is_accepted:
  "map is_accepted (extract_all_responses uj u answers) = map accepted_class (answer_classes answers)"
  using responses_loop_is_accepted[of uj u 0 "[]"]
  by (cases answers) (auto simp: extract_all_responses_def answer_classes_def)

lemma base_result_simps [simp]:
  "page_number (base_result p sys ttl qb qi tgs q rs) = p"
  "system (base_result p sys ttl qb qi tgs q rs) = sys"
  "title (base_result p sys ttl qb qi tgs q rs) = ttl"
  "question (base_result p sys ttl qb qi tgs q rs) = qb"
  "question_images (base_result p sys ttl qb qi tgs q rs) = qi"
  "tags (base_result p sys ttl qb qi tgs q rs) = tgs"
  "url (base_result p sys ttl qb qi tgs q rs) = q"
  "total_responses (base_result p sys ttl qb qi tgs q rs) = length rs"
  "all_responses (base_result p sys ttl qb qi tgs q rs) = rs"
  by (simp_all add: base_result_def)

lemma parse_thread_classified:
  assumes "parse_thread w mq p q st = (evs, st', c)"
    and "td_title (tp_dom (w_thread_page w p q)) = Some ttl"
    and "td_body (tp_dom (w_thread_page w p q)) \<noteq> BodyRaises"
    and "td_meta (tp_dom (w_thread_page w p q)) = Some (tgs, sys)"
  obtains st1 qbody qimgs where
    "classify mq (w_thread_page w p q) p q
       (base_result p sys ttl qbody qimgs tgs q
          (extract_all_responses (w_urljoin w) q (td_answers (tp_dom (w_thread_page w p q))))) st1
       = (evs, st', c)"
    "accepted_results st1 = accepted_results st"
    "no_accepted_results st1 = no_accepted_results st"
    "td_body (tp_dom (w_thread_page w p q)) = BodyAbsent \<and> qbody = [] \<and> qimgs = [] \<or>
     (\<exists>imgs. td_body (tp_dom (w_thread_page w p q)) = BodyFound qbody imgs \<and>
        qimgs = extract_images_from_element (w_urljoin w) imgs q
                  (''scrapped_data/images/'' @ generate_filename_from_url q))"
proof (cases "td_body (tp_dom (w_thread_page w p q))")
  case BodyRaises
  then show ?thesis using assms(3) by simp
next
  case BodyAbsent
  with assms have "classify mq (w_thread_page w p q) p q
       (base_result p sys ttl [] [] tgs q
          (extract_all_responses (w_urljoin w) q (td_answers (tp_dom (w_thread_page w p q))))) st
       = (evs, st', c)"
    by (simp add: parse_thread_def Let_def)
  then show ?thesis using that[where ?st1.0 = st and qbody = "[]" and qimgs = "[]"] BodyAbsent by simp
next
  case (BodyFound btext imgs)
  with assms have "classify mq (w_thread_page w p q) p q
       (base_result p sys ttl btext (extract_images_from_element (w_urljoin w) imgs q
                  (''scrapped_data/images/'' @ generate_filename_from_url q)) tgs q
          (extract_all_responses (w_urljoin w) q (td_answers (tp_dom (w_thread_page w p q)))))
       (st\<lparr>base_filename := generate_filename_from_url q\<rparr>)
       = (evs, st', c)"
    by (simp add: parse_thread_def Let_def)
  then show ?thesis
    using that[where ?st1.0 = "st\<lparr>base_filename := generate_filename_from_url q\<rparr>"
               and qbody = btext
               and qimgs = "extract_images_from_element (w_urljoin w) imgs q
                  (''scrapped_data/images/'' @ generate_filename_from_url q)"] BodyFound
    by simp
qed

lemma images_loop_acc:
  "images_loop uj b d i acc imgs = acc @ images_loop uj b d i [] imgs"
proof (induction imgs arbitrary: i acc)
  case Nil
  show ?case by simp
next
  case (Cons img imgs)
  show ?case
  proof (cases "image_entry uj b d i img")
    case None
    then show ?thesis using Cons.IH[of "Suc i" acc] by simp
  next
    case (Some entry)
    then show ?thesis
      using Cons.IH[of "Suc i" "acc @ [entry]"] Cons.IH[of "Suc i" "[entry]"] by simp
  qed
qed

lemma images_loop_append:
  "images_loop uj b d i acc (xs @ ys)
     = images_loop uj b d (i + length xs) (images_loop uj b d i acc xs) ys"
  by (induction xs arbitrary: i acc) (auto split: option.splits)

lemma image_entry_failed:
  "img_fetch img \<noteq> FetchStatus 200 \<Longrightarrow> image_entry uj b d i img = None"
  by (cases "img_fetch img") (auto simp: image_entry_def Let_def split: option.splits)

lemma image_entry_fetched:
  "image_entry uj b d i img = Some e \<Longrightarrow> img_fetch img = FetchStatus 200 \<and> img_write_ok img"
  by (cases "img_fetch img") (auto simp: image_entry_def Let_def split: option.splits if_splits)

lemma images_loop_entries:
  "e \<in> set (images_loop uj b d i acc imgs) \<Longrightarrow>
     e \<in> set acc \<or> (\<exists>k img. img \<in> set imgs \<and> image_entry uj b d k img = Some e)"
proof (induction imgs arbitrary: i acc)
  case Nil
  then show ?case by simp
next
  case (Cons img imgs)
  show ?case
  proof (cases "image_entry uj b d i img")
    case None
    then show ?thesis using Cons.IH[of "Suc i" acc] Cons.prems by auto
  next
    case (Some entry)
    then show ?thesis using Cons.IH[of "Suc i" "acc @ [entry]"] Cons.prems by auto
  qed
qed

lemma resume_after_saved_checkpoint:
  "start_page_of (disk_after fs [EvCheckpoint s SaveOk (generate_filename_from_url topic) p u])
     topic True = p + 1"
  by (simp add: start_page_of_def load_progress_checkpoint_def disk_after_def)

text \<open>
  Claim C5.  A thread whose extraction reaches the classification (title, body and metadata
  steps do not raise) is appended to exactly one collection, the other one staying as it
  was: to the accepted one if and only if one of its extracted answers has \<open>is_accepted\<close>.
  The flag of each extracted answer is \<open>accepted_class\<close> of its class attribute (empty
  when absent), and \<open>accepted_class\<close> holds exactly of the strings that contain
  \<^verbatim>\<open>lia-accepted-solution\<close> or \<^verbatim>\<open>lia-list-row-thread-solved\<close> as a substring.
\<close>

theorem classification_partition:
  assumes "td_title (tp_dom (w_thread_page w p q)) = Some ttl"
    and "td_body (tp_dom (w_thread_page w p q)) \<noteq> BodyRaises"
    and "td_meta (tp_dom (w_thread_page w p q)) = Some (tgs, sys)"
    and "parse_thread w mq p q st = (evs, st', c)"
  shows "(\<exists>r. url r = q \<and>
            all_responses r
              = extract_all_responses (w_urljoin w) q (td_answers (tp_dom (w_thread_page w p q))) \<and>
            map is_accepted (all_responses r)
              = map accepted_class (answer_classes (td_answers (tp_dom (w_thread_page w p q)))) \<and>
            (if \<exists>a\<in>set (all_responses r). is_accepted a
             then accepted_results st' = accepted_results st @ [r] \<and>
                  no_accepted_results st' = no_accepted_results st
             else accepted_results st' = accepted_results st \<and>
                  no_accepted_results st' = no_accepted_results st @ [r])) \<and>
         (\<forall>classes. accepted_class classes \<longleftrightarrow>
            (\<exists>pre post. classes = pre @ ''lia-accepted-solution'' @ post) \<or>
            (\<exists>pre post. classes = pre @ ''lia-list-row-thread-solved'' @ post))"
proof -
  from assms(4,1,2,3) obtain st1 qbody qimgs where
    cl: "classify mq (w_thread_page w p q) p q
       (base_result p sys ttl qbody qimgs tgs q
          (extract_all_responses (w_urljoin w) q (td_answers (tp_dom (w_thread_page w p q))))) st1
       = (evs, st', c)"
    and s1: "accepted_results st1 = accepted_results st"
      "no_accepted_results st1 = no_accepted_results st"
    by (rule parse_thread_classified)
  from cl obtain b r evs0 st2 where h:
    "evs = EvAppend b r # evs0"
    "save_and_check mq (w_thread_page w p q) p q st2 = (evs0, st', c)"
    "accepted_results st2 = accepted_results st1 @ (if b then [r] else [])"
    "no_accepted_results st2 = no_accepted_results st1 @ (if b then [] else [r])"
    "visited_count st2 = Suc (visited_count st1)"
    "base_filename st2 = base_filename st1"
    "stop_all st2 = stop_all st1"
    "page_number r = page_number (base_result p sys ttl qbody qimgs tgs q
          (extract_all_responses (w_urljoin w) q (td_answers (tp_dom (w_thread_page w p q)))))"
    "url r = url (base_result p sys ttl qbody qimgs tgs q
          (extract_all_responses (w_urljoin w) q (td_answers (tp_dom (w_thread_page w p q)))))"
    "all_responses r = all_responses (base_result p sys ttl qbody qimgs tgs q
          (extract_all_responses (w_urljoin w) q (td_answers (tp_dom (w_thread_page w p q)))))"
    "b = (\<exists>a\<in>set (all_responses (base_result p sys ttl qbody qimgs tgs q
          (extract_all_responses (w_urljoin w) q (td_answers (tp_dom (w_thread_page w p q)))))). is_accepted a)"
    by (rule classify_cases)
  note sc = save_and_check_state[OF h(2)]
  have u: "url r = q" using h(9) by simp
  have a: "all_responses r
              = extract_all_responses (w_urljoin w) q (td_answers (tp_dom (w_thread_page w p q)))"
    using h(10) by simp
  have m: "map is_accepted (all_responses r)
              = map accepted_class (answer_classes (td_answers (tp_dom (w_thread_page w p q))))"
    using a extract_all_responses_is_accepted by simp
  have b: "b = (\<exists>a\<in>set (all_responses r). is_accepted a)" using h(11) a by simp
  have part: "if \<exists>a\<in>set (all_responses r). is_accepted a
             then accepted_results st' = accepted_results st @ [r] \<and>
                  no_accepted_results st' = no_accepted_results st
             else accepted_results st' = accepted_results st \<and>
                  no_accepted_results st' = no_accepted_results st @ [r]"
    using b h(3,4) s1 sc(1,2) by (cases b) simp_all
  have cls: "\<forall>classes. accepted_class classes \<longleftrightarrow>
            (\<exists>pre post. classes = pre @ ''lia-accepted-solution'' @ post) \<or>
            (\<exists>pre post. classes = pre @ ''lia-list-row-thread-solved'' @ post)"
    by (simp only: accepted_class_def contains_iff) blast
  show ?thesis using u a m part cls by blast
qed


theorem classification_partition_witness:
  "\<exists>r. url r = ''https://community.sap.com/t5/crm-q-a/a/qaq-p/1''
       \<and> accepted_results (fst (snd (parse_thread demo_world None 2
             ''https://community.sap.com/t5/crm-q-a/a/qaq-p/1'' (initial_state demo_topic)))) = [r]
       \<and> no_accepted_results (fst (snd (parse_thread demo_world None 2
             ''https://community.sap.com/t5/crm-q-a/a/qaq-p/1'' (initial_state demo_topic)))) = []"
proof -
  let ?q = "''https://community.sap.com/t5/crm-q-a/a/qaq-p/1''"
  let ?res = "parse_thread demo_world None 2 ?q (initial_state demo_topic)"
  have t: "td_title (tp_dom (w_thread_page demo_world 2 ?q)) = Some ''T''"
    by (simp add: demo_world_def thread_with_def)
  have b: "td_body (tp_dom (w_thread_page demo_world 2 ?q)) \<noteq> BodyRaises"
    by (simp add: demo_world_def thread_with_def)
  have m: "td_meta (tp_dom (w_thread_page demo_world 2 ?q)) = Some ([], ''S'')"
    by (simp add: demo_world_def thread_with_def)
  have p: "?res = (fst ?res, fst (snd ?res), snd (snd ?res))" by simp
  have a: "\<exists>a\<in>set (extract_all_responses (w_urljoin demo_world) ?q
                      (td_answers (tp_dom (w_thread_page demo_world 2 ?q)))). is_accepted a"
    by code_simp
  from classification_partition[OF t b m p] obtain r where r:
    "url r = ?q"
    "all_responses r = extract_all_responses (w_urljoin demo_world) ?q
                      (td_answers (tp_dom (w_thread_page demo_world 2 ?q)))"
    "if \<exists>a\<in>set (all_responses r). is_accepted a
     then accepted_results (fst (snd ?res)) = accepted_results (initial_state demo_topic) @ [r] \<and>
          no_accepted_results (fst (snd ?res)) = no_accepted_results (initial_state demo_topic)
     else accepted_results (fst (snd ?res)) = accepted_results (initial_state demo_topic) \<and>
          no_accepted_results (fst (snd ?res)) = no_accepted_results (initial_state demo_topic) @ [r]"
    by blast
  have "accepted_results (fst (snd ?res)) = [r] \<and> no_accepted_results (fst (snd ?res)) = []"
    using r(2,3) a by simp
  then show ?thesis using r(1) by blast
qed

text \<open>
  Claim C10.  An image whose download does not answer with status 200 (another status, or
  an exception) leaves no entry: the list returned for the element is the list of the
  images before it followed by what the loop yields for the images after it at their own
  positions, and every entry of the list comes from an image that answered 200 and was
  written.  The record of a thread with such a question image is still appended, with the
  title, body, tags, category, URL and answers of the page and the other images.
\<close>

theorem failed_image_is_omitted:
  assumes "img_fetch bad \<noteq> FetchStatus 200"
  shows "extract_images_from_element uj (Some (xs @ bad # ys)) b d
           = extract_images_from_element uj (Some xs) b d @ images_loop uj b d (Suc (length xs)) [] ys
         \<and> (\<forall>e\<in>set (extract_images_from_element uj (Some (xs @ bad # ys)) b d).
               \<exists>k img. img \<in> set (xs @ ys) \<and> img_fetch img = FetchStatus 200 \<and> img_write_ok img
                        \<and> image_entry uj b d k img = Some e)
         \<and> (td_title (tp_dom (w_thread_page w p q)) = Some ttl
              \<and> td_body (tp_dom (w_thread_page w p q)) = BodyFound qbody (Some (xs @ bad # ys))
              \<and> td_meta (tp_dom (w_thread_page w p q)) = Some (tgs, sys)
            \<longrightarrow> (\<exists>flag r evs. fst (parse_thread w mq p q st) = EvAppend flag r # evs
                   \<and> title r = ttl \<and> question r = qbody \<and> tags r = tgs \<and> system r = sys
                   \<and> url r = q
                   \<and> all_responses r
                       = extract_all_responses (w_urljoin w) q (td_answers (tp_dom (w_thread_page w p q)))
                   \<and> question_images r
                       = extract_images_from_element (w_urljoin w) (Some xs) q
                           (''scrapped_data/images/'' @ generate_filename_from_url q)
                         @ images_loop (w_urljoin w) q
                             (''scrapped_data/images/'' @ generate_filename_from_url q)
                             (Suc (length xs)) [] ys))"
proof -
  have eq: "extract_images_from_element uj' (Some (xs @ bad # ys)) b' d'
           = extract_images_from_element uj' (Some xs) b' d' @ images_loop uj' b' d' (Suc (length xs)) [] ys"
    for uj' b' d'
  proof -
    have "images_loop uj' b' d' 0 [] (xs @ bad # ys)
            = images_loop uj' b' d' (length xs) (images_loop uj' b' d' 0 [] xs) (bad # ys)"
      using images_loop_append[of uj' b' d' 0 "[]" xs "bad # ys"] by simp
    also have "\<dots> = images_loop uj' b' d' (Suc (length xs)) (images_loop uj' b' d' 0 [] xs) ys"
      using image_entry_failed[OF assms] by simp
    also have "\<dots> = images_loop uj' b' d' 0 [] xs @ images_loop uj' b' d' (Suc (length xs)) [] ys"
      using images_loop_acc by blast
    finally show ?thesis by (simp add: extract_images_from_element_def)
  qed
  have ents: "\<forall>e\<in>set (extract_images_from_element uj (Some (xs @ bad # ys)) b d).
               \<exists>k img. img \<in> set (xs @ ys) \<and> img_fetch img = FetchStatus 200 \<and> img_write_ok img
                        \<and> image_entry uj b d k img = Some e"
  proof
    fix e assume "e \<in> set (extract_images_from_element uj (Some (xs @ bad # ys)) b d)"
    then obtain k img where ki: "img \<in> set (xs @ bad # ys)" "image_entry uj b d k img = Some e"
      using images_loop_entries[of e uj b d 0 "[]" "xs @ bad # ys"]
      by (auto simp: extract_images_from_element_def)
    have "img \<noteq> bad" using ki(2) image_entry_failed[OF assms] by auto
    then have "img \<in> set (xs @ ys)" using ki(1) by auto
    then show "\<exists>k img. img \<in> set (xs @ ys) \<and> img_fetch img = FetchStatus 200 \<and> img_write_ok img
                        \<and> image_entry uj b d k img = Some e"
      using ki(2) image_entry_fetched by blast
  qed
  have rec: "td_title (tp_dom (w_thread_page w p q)) = Some ttl
              \<and> td_body (tp_dom (w_thread_page w p q)) = BodyFound qbody (Some (xs @ bad # ys))
              \<and> td_meta (tp_dom (w_thread_page w p q)) = Some (tgs, sys)
            \<longrightarrow> (\<exists>flag r evs. fst (parse_thread w mq p q st) = EvAppend flag r # evs
                   \<and> title r = ttl \<and> question r = qbody \<and> tags r = tgs \<and> system r = sys
                   \<and> url r = q
                   \<and> all_responses r
                       = extract_all_responses (w_urljoin w) q (td_answers (tp_dom (w_thread_page w p q)))
                   \<and> question_images r
                       = extract_images_from_element (w_urljoin w) (Some xs) q
                           (''scrapped_data/images/'' @ generate_filename_from_url q)
                         @ images_loop (w_urljoin w) q
                             (''scrapped_data/images/'' @ generate_filename_from_url q)
                             (Suc (length xs)) [] ys)"
  proof
    assume dom: "td_title (tp_dom (w_thread_page w p q)) = Some ttl
              \<and> td_body (tp_dom (w_thread_page w p q)) = BodyFound qbody (Some (xs @ bad # ys))
              \<and> td_meta (tp_dom (w_thread_page w p q)) = Some (tgs, sys)"
    let ?res = "parse_thread w mq p q st"
    let ?imgs = "extract_images_from_element (w_urljoin w) (Some (xs @ bad # ys)) q
                   (''scrapped_data/images/'' @ generate_filename_from_url q)"
    let ?base = "base_result p sys ttl qbody ?imgs tgs q
          (extract_all_responses (w_urljoin w) q (td_answers (tp_dom (w_thread_page w p q))))"
    have pr: "?res = (fst ?res, fst (snd ?res), snd (snd ?res))" by simp
    have t: "td_title (tp_dom (w_thread_page w p q)) = Some ttl" using dom by simp
    have bf: "td_body (tp_dom (w_thread_page w p q)) = BodyFound qbody (Some (xs @ bad # ys))"
      using dom by simp
    have m: "td_meta (tp_dom (w_thread_page w p q)) = Some (tgs, sys)" using dom by simp
    have nb: "td_body (tp_dom (w_thread_page w p q)) \<noteq> BodyRaises" using bf by simp
    from pr t nb m obtain st1 qb qi where
      cl0: "classify mq (w_thread_page w p q) p q
         (base_result p sys ttl qb qi tgs q
            (extract_all_responses (w_urljoin w) q (td_answers (tp_dom (w_thread_page w p q))))) st1
         = (fst ?res, fst (snd ?res), snd (snd ?res))"
      and "accepted_results st1 = accepted_results st"
      and "no_accepted_results st1 = no_accepted_results st"
      and d: "td_body (tp_dom (w_thread_page w p q)) = BodyAbsent \<and> qb = [] \<and> qi = [] \<or>
         (\<exists>imgs. td_body (tp_dom (w_thread_page w p q)) = BodyFound qb imgs \<and>
            qi = extract_images_from_element (w_urljoin w) imgs q
                      (''scrapped_data/images/'' @ generate_filename_from_url q))"
      by (rule parse_thread_classified)
    have "qb = qbody \<and> qi = ?imgs" using d bf by auto
    then have cl: "classify mq (w_thread_page w p q) p q ?base st1
                     = (fst ?res, fst (snd ?res), snd (snd ?res))"
      using cl0 by simp
    from cl obtain flag r evs0 where h:
      "fst ?res = EvAppend flag r # evs0"
      "url r = url ?base" "all_responses r = all_responses ?base"
      "title r = title ?base" "question r = question ?base" "tags r = tags ?base"
      "system r = system ?base" "question_images r = question_images ?base"
      by (elim classify_cases) blast
    show "\<exists>flag r evs. fst ?res = EvAppend flag r # evs
                   \<and> title r = ttl \<and> question r = qbody \<and> tags r = tgs \<and> system r = sys
                   \<and> url r = q
                   \<and> all_responses r
                       = extract_all_responses (w_urljoin w) q (td_answers (tp_dom (w_thread_page w p q)))
                   \<and> question_images r
                       = extract_images_from_element (w_urljoin w) (Some xs) q
                           (''scrapped_data/images/'' @ generate_filename_from_url q)
                         @ images_loop (w_urljoin w) q
                             (''scrapped_data/images/'' @ generate_filename_from_url q)
                             (Suc (length xs)) [] ys"
      using h eq by (intro exI[of _ flag] exI[of _ r] exI[of _ evs0]) simp
  qed
  show ?thesis using eq ents rec by blast
qed

theorem failed_image_is_omitted_witness:
  "img_fetch failing_img \<noteq> FetchStatus 200
   \<and> map filename (extract_images_from_element (w_urljoin demo_world)
                     (Some ([good_img] @ failing_img # [good_img])) ''https://h/x'' ''images'')
       = [''image_0_0.png'', ''image_2_2.png'']"
proof -
  have h: "img_fetch failing_img \<noteq> FetchStatus 200" by (simp add: failing_img_def)
  have v: "map filename (extract_images_from_element (w_urljoin demo_world) (Some [good_img])
                           ''https://h/x'' ''images''
                         @ images_loop (w_urljoin demo_world) ''https://h/x'' ''images''
                             (Suc (length [good_img])) [] [good_img])
             = [''image_0_0.png'', ''image_2_2.png'']"
    by code_simp
  show ?thesis
    using failed_image_is_omitted[OF h, where uj = "w_urljoin demo_world" and xs = "[good_img]"
        and ys = "[good_img]" and b = "''https://h/x''" and d = "''images''"] h v
    by simp
qed

text \<open>
  Claim C1 does not hold of the code.  The assignment to \<^verbatim>\<open>base_filename\<close> inside the thread
  loop (made for the image directory) overwrites the variable that the flush and both
  checkpoint saves read.  On \<open>drift_world\<close>, whose first list page links a thread of another
  board, the first save uses the name of the topic and every later save, among them the
  checkpoint of the next list page, the name derived from the thread's URL.
\<close>

theorem write_names_follow_thread_url:
  "generate_filename_from_url demo_topic = ''sap_community_crm_q_a''
   \<and> write_bases (run_trace drift_world Map.empty demo_topic 2 None False)
       = [''sap_community_crm_q_a'', ''sap_community_erp_q_a'', ''sap_community_erp_q_a'',
          ''sap_community_erp_q_a'']"
  by code_simp

text \<open>
  Claim C2 does not hold of the code.  The checkpoint written before the fetch of page \<open>p\<close>
  records \<open>p\<close> itself, and a resumed run starts at the recorded page plus one
  (\<open>resume_after_saved_checkpoint\<close>).  On \<open>crash_world\<close> the first run saves the
  checkpoint of page 1, loads the page and ends with an exception before visiting any
  thread; the run resumed from the disk it leaves starts at page 2.
\<close>

theorem resume_skips_interrupted_page:
  "run_raised crash_world Map.empty demo_topic 3 None True
   \<and> run_trace crash_world Map.empty demo_topic 3 None True
       = [EvCheckpoint AtList SaveOk ''sap_community_crm_q_a'' 1
            ''https://community.sap.com/t5/crm-q-a/qa-p/crm?page=1'',
          EvListGoto 1 0]
   \<and> start_page_of (disk_after Map.empty (run_trace crash_world Map.empty demo_topic 3 None True))
        demo_topic True = 2"
  by code_simp

end
